theory Spec2Isabelle
  imports Main "HOL-Library.Word"
begin

unbundle bit_operations_syntax

section \<open>The memory simulator of memory\_simulator.c\<close>

text \<open>
  The program reads virtual addresses, splits each into a page number and an offset,
  looks the page up in a translation lookaside buffer (a ring of 16 entries with FIFO
  replacement), falls back to the page table, loads the page from the disk file on a
  page fault, and prints the physical address and the byte stored there.

  The two counters of \<open>main\<close> that grow with every address,
  \<open>num_addresses_processed\<close> and \<open>num_TLB_hits\<close>, are 32-bit words, the width of a C
  \<open>int\<close> where the program runs: an increment wraps around, and \<open>sint\<close> reads the
  signed value. (C leaves signed overflow undefined; the wrap-around is what the
  compiled increment does.) Lemma \<open>counters_fit_int32\<close> below relates them to the
  numbers they count for streams of fewer than \<open>2^31\<close> addresses. Every other \<open>int\<close>
  of the program stays within small bounds in every run (page and frame numbers, the
  count and the head of the buffer, the page faults, all at most 256) and is modelled,
  like the \<open>long\<close> addresses, as \<open>int\<close>. A \<open>char\<close> is an \<open>8 word\<close>, read as a signed value where the
  program converts it to \<open>int\<close> (plain \<open>char\<close> is taken to be signed, as the
  printed values of the program assume). A C array is a list of its declared length,
  indexed through \<open>nat\<close>; the theorems on bounds show that every index a run uses
  lies inside its array.

  The address stream is the sequence of values that \<open>atol\<close> returns, one for each
  line that \<open>fgets\<close> delivers; reading the file, the command line and the messages on
  the error channel are not modelled.
\<close>

subsection \<open>Constants\<close>

abbreviation FRAME_SIZE_BYTES :: int where "FRAME_SIZE_BYTES \<equiv> 256"
abbreviation NUM_FRAMES :: int where "NUM_FRAMES \<equiv> 256"
abbreviation NUM_TLB_ENTRIES :: int where "NUM_TLB_ENTRIES \<equiv> 16"
abbreviation OFFSET_MASK :: int where "OFFSET_MASK \<equiv> 0xFF"
abbreviation PAGE_NUM_MASK :: int where "PAGE_NUM_MASK \<equiv> 0xFF00"
abbreviation PAGE_NUM_SHIFT :: nat where "PAGE_NUM_SHIFT \<equiv> 8"
abbreviation PAGE_SIZE_BYTES :: int where "PAGE_SIZE_BYTES \<equiv> 256"

subsection \<open>Data\<close>

type_synonym byte = "8 word"

text \<open>\<open>struct memory\<close>: the frames and the index of the next free frame.\<close>

record memory =
  memory :: "byte list list"
  highest_open_frame :: int

text \<open>\<open>struct tlb\<close>: two parallel arrays, the number of filled entries and the FIFO head.\<close>

record tlb =
  page_numbers :: "int list"
  frame_numbers :: "int list"
  num_filled :: int
  head_position :: int

text \<open>
  The state of a run: the three singleton objects, the static counter of
  \<open>check_page_table\<close>, the three counters local to \<open>main\<close>, and the lines printed so
  far, each as (virtual address, physical address, value).
\<close>

record state =
  page_table :: "int list"
  local_memory :: memory
  TLB :: tlb
  num_page_faults :: int
  num_TLB_hits :: "32 word"
  num_Pg_faults :: int
  num_addresses_processed :: "32 word"
  printed :: "(int \<times> int \<times> int) list"

text \<open>The disk file is its content, a sequence of bytes.\<close>

type_synonym disk = "byte list"

subsection \<open>Arithmetic of C\<close>

text \<open>The remainder of C truncates towards zero and takes the sign of the dividend.\<close>

definition c_rem :: "int \<Rightarrow> int \<Rightarrow> int" where
  "c_rem a b = sgn a * (\<bar>a\<bar> mod \<bar>b\<bar>)"

subsection \<open>Address decomposition\<close>

definition get_offset :: "int \<Rightarrow> int" where
  "get_offset virtual_address = virtual_address AND OFFSET_MASK"

definition get_page_number :: "int \<Rightarrow> int" where
  "get_page_number virtual_address =
     drop_bit PAGE_NUM_SHIFT (virtual_address AND PAGE_NUM_MASK)"

subsection \<open>Initialisation\<close>

definition initialize_memory :: "memory \<Rightarrow> memory" where
  "initialize_memory m = m\<lparr>highest_open_frame := 0\<rparr>"

function initialize_page_table_loop :: "int list \<Rightarrow> int \<Rightarrow> int list" where
  "initialize_page_table_loop pt i =
     (if i < PAGE_SIZE_BYTES then initialize_page_table_loop (pt[nat i := - 1]) (i + 1)
      else pt)"
  by pat_completeness auto
termination
  by (relation "measure (\<lambda>(pt, i). nat (PAGE_SIZE_BYTES - i))") auto

definition initialize_page_table :: "int list \<Rightarrow> int list" where
  "initialize_page_table pt = initialize_page_table_loop pt 0"

definition initialize_TLB :: "tlb \<Rightarrow> tlb" where
  "initialize_TLB t = t\<lparr>num_filled := 0, head_position := 0\<rparr>"

text \<open>Objects of static storage duration start with every byte zero.\<close>

definition zeroed :: state where
  "zeroed =
     \<lparr>page_table = replicate 256 0,
      local_memory = \<lparr>memory = replicate 256 (replicate 256 0), highest_open_frame = 0\<rparr>,
      TLB = \<lparr>page_numbers = replicate 16 0, frame_numbers = replicate 16 0,
             num_filled = 0, head_position = 0\<rparr>,
      num_page_faults = 0,
      num_TLB_hits = 0,
      num_Pg_faults = 0,
      num_addresses_processed = 0,
      printed = []\<rparr>"

text \<open>The state when \<open>main\<close> enters its loop.\<close>

definition start :: state where
  "start =
     zeroed\<lparr>TLB := initialize_TLB (TLB zeroed),
            page_table := initialize_page_table (page_table zeroed),
            local_memory := initialize_memory (local_memory zeroed)\<rparr>"

subsection \<open>Loading a page\<close>

text \<open>
  \<open>lseek\<close> to \<open>page_number * PAGE_SIZE_BYTES\<close> and \<open>read\<close> of 256 bytes into the zeroed
  \<open>tmp_page\<close>: the bytes the file has from that position on, at most 256 of them; the
  rest of \<open>tmp_page\<close> stays zero. A file that could not be opened behaves as the empty
  file (both calls fail and \<open>tmp_page\<close> stays zero); the messages on the error channel
  are not modelled.
\<close>

definition read_page :: "disk \<Rightarrow> int \<Rightarrow> byte list" where
  "read_page d page_number =
     (let got = take 256 (drop (nat (page_number * PAGE_SIZE_BYTES)) d)
      in got @ replicate (256 - length got) 0)"

function copy_page_loop :: "byte list \<Rightarrow> memory \<Rightarrow> int \<Rightarrow> memory" where
  "copy_page_loop tmp_page m i =
     (if i < PAGE_SIZE_BYTES
      then copy_page_loop tmp_page
             (m\<lparr>memory := (memory m)[nat (highest_open_frame m) :=
                   (memory m ! nat (highest_open_frame m))[nat i := tmp_page ! nat i]]\<rparr>)
             (i + 1)
      else m)"
  by pat_completeness auto
termination
  by (relation "measure (\<lambda>(tmp_page, m, i). nat (PAGE_SIZE_BYTES - i))") auto

definition load_page_disk_to_memory :: "disk \<Rightarrow> memory \<Rightarrow> int \<Rightarrow> int \<Rightarrow> int \<times> memory" where
  "load_page_disk_to_memory d m page_number offset =
     (let tmp_page = read_page d page_number;
          m1 = copy_page_loop tmp_page m 0;
          frame_number = highest_open_frame m1
      in (frame_number, m1\<lparr>highest_open_frame := highest_open_frame m1 + 1\<rparr>))"

subsection \<open>The translation lookaside buffer\<close>

function search_TLB_loop :: "tlb \<Rightarrow> int \<Rightarrow> int \<Rightarrow> int" where
  "search_TLB_loop t page_number index =
     (if index < num_filled t
      then (if page_numbers t ! nat (c_rem (head_position t + index) NUM_TLB_ENTRIES)
                 = page_number
            then frame_numbers t ! nat (c_rem (head_position t + index) NUM_TLB_ENTRIES)
            else search_TLB_loop t page_number (index + 1))
      else - 1)"
  by pat_completeness auto
termination
  by (relation "measure (\<lambda>(t, page_number, index). nat (num_filled t - index))") auto

definition search_TLB :: "tlb \<Rightarrow> int \<Rightarrow> int" where
  "search_TLB t page_number = search_TLB_loop t page_number 0"

definition update_TLB :: "tlb \<Rightarrow> int \<Rightarrow> int \<Rightarrow> tlb" where
  "update_TLB t page_number frame_number =
     (if num_filled t = NUM_TLB_ENTRIES
      then t\<lparr>page_numbers := (page_numbers t)[nat (head_position t) := page_number],
             frame_numbers := (frame_numbers t)[nat (head_position t) := frame_number],
             head_position := c_rem (head_position t + 1) NUM_TLB_ENTRIES\<rparr>
      else t\<lparr>page_numbers := (page_numbers t)[nat (num_filled t) := page_number],
             frame_numbers := (frame_numbers t)[nat (num_filled t) := frame_number],
             num_filled := num_filled t + 1\<rparr>)"

subsection \<open>The page table\<close>

definition update_page_table :: "int list \<Rightarrow> int \<Rightarrow> int \<Rightarrow> int list" where
  "update_page_table pt page_number frame_number = pt[nat page_number := frame_number]"

text \<open>
  \<open>check_page_table\<close> returns its static counter; the state it leaves is the second
  component.
\<close>

definition check_page_table :: "disk \<Rightarrow> state \<Rightarrow> int \<Rightarrow> int \<Rightarrow> int \<times> state" where
  "check_page_table d s page_number offset =
     (if page_table s ! nat page_number = - 1
      then (let s1 = s\<lparr>num_page_faults := num_page_faults s + 1\<rparr>;
                (frame_number, m) =
                   load_page_disk_to_memory d (local_memory s1) page_number offset;
                s2 = s1\<lparr>local_memory := m\<rparr>;
                s3 = s2\<lparr>page_table := update_page_table (page_table s2) page_number frame_number\<rparr>;
                s4 = s3\<lparr>TLB := update_TLB (TLB s3) page_number frame_number\<rparr>
            in (num_page_faults s4, s4))
      else (let frame_number = page_table s ! nat page_number;
                s4 = s\<lparr>TLB := update_TLB (TLB s) page_number frame_number\<rparr>
            in (num_page_faults s4, s4)))"

subsection \<open>The loop of main\<close>

text \<open>
  Lines 137 to 144: the frame number that the rest of the loop body uses, and the state
  after the lookup.
\<close>

definition lookup_frame :: "disk \<Rightarrow> state \<Rightarrow> int \<Rightarrow> int \<Rightarrow> int \<times> state" where
  "lookup_frame d s page_number offset =
     (let frame_number = search_TLB (TLB s) page_number
      in if frame_number = - 1
         then (let (faults, s1) = check_page_table d s page_number offset;
                   s2 = s1\<lparr>num_Pg_faults := faults\<rparr>
               in (search_TLB (TLB s2) page_number, s2))
         else (frame_number, s\<lparr>num_TLB_hits := num_TLB_hits s + 1\<rparr>))"

text \<open>One pass through the body of the loop, for the address that \<open>atol\<close> returned.\<close>

definition process_address :: "disk \<Rightarrow> state \<Rightarrow> int \<Rightarrow> state" where
  "process_address d s virtual_address =
     (let s0 = s\<lparr>num_addresses_processed := num_addresses_processed s + 1\<rparr>;
          page_number = get_page_number virtual_address;
          offset = get_offset virtual_address;
          (frame_number, s1) = lookup_frame d s0 page_number offset;
          physical_address = frame_number * FRAME_SIZE_BYTES + offset;
          value = sint (memory (local_memory s1) ! nat frame_number ! nat offset)
      in s1\<lparr>printed := printed s1 @ [(virtual_address, physical_address, value)]\<rparr>)"

fun run_from :: "disk \<Rightarrow> state \<Rightarrow> int list \<Rightarrow> state" where
  "run_from d s [] = s"
| "run_from d s (a # as) = run_from d (process_address d s a) as"

definition run :: "disk \<Rightarrow> int list \<Rightarrow> state" where
  "run d as = run_from d start as"


text \<open>The value of \<open>frame_number\<close> at line 146, when the loop body runs for the address
  \<open>a\<close> in the state \<open>s\<close>.\<close>

definition resolved_frame :: "disk \<Rightarrow> state \<Rightarrow> int \<Rightarrow> int" where
  "resolved_frame d s a =
     fst (lookup_frame d (s\<lparr>num_addresses_processed := num_addresses_processed s + 1\<rparr>)
            (get_page_number a) (get_offset a))"

text \<open>
  The pairs that a stream makes \<open>update_TLB\<close> insert, in the order of insertion: one
  pair for every address whose probe of the buffer misses.
\<close>

fun insertions :: "disk \<Rightarrow> state \<Rightarrow> int list \<Rightarrow> (int \<times> int) list" where
  "insertions d s [] = []"
| "insertions d s (a # as) =
     (if search_TLB (TLB s) (get_page_number a) = - 1
      then [(get_page_number a, resolved_frame d s a)] else [])
       @ insertions d (process_address d s a) as"

subsection \<open>Notions used in the statements\<close>

text \<open>The entries that \<open>search_TLB\<close> visits, in the order of its loop: the entry at index
  \<open>i\<close> of this list sits in slot \<open>(head_position + i) % NUM_TLB_ENTRIES\<close>.\<close>

definition held :: "tlb \<Rightarrow> (int \<times> int) list" where
  "held t =
     map (\<lambda>i. (page_numbers t ! ((nat (head_position t) + i) mod 16),
               frame_numbers t ! ((nat (head_position t) + i) mod 16)))
       [0..<nat (num_filled t)]"

text \<open>The shape of the ring: both arrays have their declared length, the count and the head
  stay in range, and the head does not move before the ring is full.\<close>

definition tlb_ok :: "tlb \<Rightarrow> bool" where
  "tlb_ok t \<longleftrightarrow>
     length (page_numbers t) = 16 \<and> length (frame_numbers t) = 16 \<and>
     0 \<le> num_filled t \<and> num_filled t \<le> NUM_TLB_ENTRIES \<and>
     0 \<le> head_position t \<and> head_position t < NUM_TLB_ENTRIES \<and>
     (num_filled t < NUM_TLB_ENTRIES \<longrightarrow> head_position t = 0)"

text \<open>The page numbers that have an entry in the page table.\<close>

definition mapped :: "int list \<Rightarrow> int set" where
  "mapped pt = {p. 0 \<le> p \<and> p < 256 \<and> pt ! nat p \<noteq> - 1}"

text \<open>The frames array has its declared dimensions.\<close>

definition mem_ok :: "memory \<Rightarrow> bool" where
  "mem_ok m \<longleftrightarrow> length (memory m) = 256 \<and> (\<forall>r \<in> set (memory m). length r = 256)"

text \<open>The next free frame is the number of mapped pages, every mapped page has a frame below
  it, and no two mapped pages share a frame.\<close>

definition table_ok :: "state \<Rightarrow> bool" where
  "table_ok s \<longleftrightarrow>
     length (page_table s) = 256 \<and>
     int (card (mapped (page_table s))) = highest_open_frame (local_memory s) \<and>
     (\<forall>p \<in> mapped (page_table s).
        0 \<le> page_table s ! nat p \<and> page_table s ! nat p < highest_open_frame (local_memory s)) \<and>
     inj_on (\<lambda>p. page_table s ! nat p) (mapped (page_table s))"

text \<open>No page number is held twice, and every held entry repeats the page table.\<close>

definition tlb_agrees :: "state \<Rightarrow> bool" where
  "tlb_agrees s \<longleftrightarrow>
     distinct (map fst (held (TLB s))) \<and>
     (\<forall>e \<in> set (held (TLB s)).
        fst e \<in> mapped (page_table s) \<and> snd e = page_table s ! nat (fst e))"

text \<open>The frame of a mapped page holds what was read from the disk for that page.\<close>

definition frames_loaded :: "disk \<Rightarrow> state \<Rightarrow> bool" where
  "frames_loaded d s \<longleftrightarrow>
     (\<forall>p \<in> mapped (page_table s).
        memory (local_memory s) ! nat (page_table s ! nat p) = read_page d p)"

text \<open>The invariant of the loop of \<open>main\<close>.\<close>

definition consistent :: "disk \<Rightarrow> state \<Rightarrow> bool" where
  "consistent d s \<longleftrightarrow>
     tlb_ok (TLB s) \<and> mem_ok (local_memory s) \<and> table_ok s \<and> tlb_agrees s \<and>
     frames_loaded d s \<and>
     num_Pg_faults s = num_page_faults s \<and>
     num_page_faults s = highest_open_frame (local_memory s)"

declare initialize_page_table_loop.simps [simp del]
declare copy_page_loop.simps [simp del]
declare search_TLB_loop.simps [simp del]

section \<open>Loops and arithmetic\<close>

lemma c_rem_nonneg: "0 \<le> a \<Longrightarrow> 0 < b \<Longrightarrow> c_rem a b = a mod b"
  by (cases "a = 0") (simp_all add: c_rem_def)

lemma initialize_page_table_loop_eq:
  "0 \<le> i \<Longrightarrow> i \<le> 256 \<Longrightarrow> length pt = 256 \<Longrightarrow>
   initialize_page_table_loop pt i = take (nat i) pt @ replicate (256 - nat i) (- 1)"
proof (induction pt i rule: initialize_page_table_loop.induct)
  case (1 pt i)
  show ?case
  proof (cases "i < 256")
    case True
    have n: "nat (i + 1) = Suc (nat i)" using 1(2) by simp
    have lt: "nat i < 256" using True 1(2) by simp
    have "initialize_page_table_loop pt i = initialize_page_table_loop (pt[nat i := - 1]) (i + 1)"
      using True by (subst initialize_page_table_loop.simps) simp
    also have "\<dots> = take (nat (i + 1)) (pt[nat i := - 1]) @ replicate (256 - nat (i + 1)) (- 1)"
      using 1 True by simp
    also have "\<dots> = take (nat i) pt @ replicate (256 - nat i) (- 1)"
      using lt 1(4) unfolding n
      by (simp add: take_Suc_conv_app_nth replicate_append_same Suc_diff_Suc flip: replicate_Suc)
    finally show ?thesis .
  next
    case False
    then have "i = 256" using 1(3) by simp
    then show ?thesis using 1(4)
      by (subst initialize_page_table_loop.simps) simp
  qed
qed

lemma start_eq:
  "start =
     \<lparr>page_table = replicate 256 (- 1),
      local_memory = \<lparr>memory = replicate 256 (replicate 256 0), highest_open_frame = 0\<rparr>,
      TLB = \<lparr>page_numbers = replicate 16 0, frame_numbers = replicate 16 0,
             num_filled = 0, head_position = 0\<rparr>,
      num_page_faults = 0, num_TLB_hits = 0, num_Pg_faults = 0,
      num_addresses_processed = 0, printed = []\<rparr>"
  by (simp add: start_def zeroed_def initialize_TLB_def initialize_memory_def
      initialize_page_table_def initialize_page_table_loop_eq)

lemma copy_page_loop_eq:
  "0 \<le> i \<Longrightarrow> i \<le> 256 \<Longrightarrow> length tmp_page = 256 \<Longrightarrow>
   0 \<le> highest_open_frame m \<Longrightarrow> nat (highest_open_frame m) < length (memory m) \<Longrightarrow>
   length (memory m ! nat (highest_open_frame m)) = 256 \<Longrightarrow>
   copy_page_loop tmp_page m i =
     m\<lparr>memory := (memory m)[nat (highest_open_frame m) :=
          take (nat i) (memory m ! nat (highest_open_frame m)) @ drop (nat i) tmp_page]\<rparr>"
proof (induction tmp_page m i rule: copy_page_loop.induct)
  case (1 tmp_page m i)
  let ?f = "nat (highest_open_frame m)"
  show ?case
  proof (cases "i < 256")
    case True
    let ?m' = "m\<lparr>memory := (memory m)[?f := (memory m ! ?f)[nat i := tmp_page ! nat i]]\<rparr>"
    have n: "nat (i + 1) = Suc (nat i)" using 1(2) by simp
    have lt: "nat i < 256" using True 1(2) by simp
    have "copy_page_loop tmp_page m i = copy_page_loop tmp_page ?m' (i + 1)"
      using True by (subst copy_page_loop.simps) simp
    also have "\<dots> = ?m'\<lparr>memory := (memory ?m')[?f :=
          take (nat (i + 1)) (memory ?m' ! ?f) @ drop (nat (i + 1)) tmp_page]\<rparr>"
      using 1(1)[OF True] 1(2-) True by simp
    also have "\<dots> = m\<lparr>memory := (memory m)[?f := take (nat i) (memory m ! ?f) @ drop (nat i) tmp_page]\<rparr>"
      using lt 1(4,6,7) unfolding n
      by (simp add: take_Suc_conv_app_nth Cons_nth_drop_Suc)
    finally show ?thesis .
  next
    case False
    then have "i = 256" using 1(3) by simp
    then show ?thesis using 1(4-)
      by (subst copy_page_loop.simps) simp
  qed
qed

lemma length_read_page: "length (read_page d p) = 256"
  by (simp add: read_page_def Let_def)

lemma load_page_disk_to_memory_eq:
  "0 \<le> highest_open_frame m \<Longrightarrow> nat (highest_open_frame m) < length (memory m) \<Longrightarrow>
   length (memory m ! nat (highest_open_frame m)) = 256 \<Longrightarrow>
   load_page_disk_to_memory d m p off =
     (highest_open_frame m,
      m\<lparr>memory := (memory m)[nat (highest_open_frame m) := read_page d p],
        highest_open_frame := highest_open_frame m + 1\<rparr>)"
  by (simp add: load_page_disk_to_memory_def Let_def copy_page_loop_eq length_read_page)

section \<open>The ring as a queue\<close>

lemma slot_eq:
  "0 \<le> h \<Longrightarrow> 0 \<le> i \<Longrightarrow> nat (c_rem (h + i) 16) = (nat h + nat i) mod 16"
  by (simp add: c_rem_nonneg nat_mod_distrib nat_add_distrib)

lemma length_held [simp]: "length (held t) = nat (num_filled t)"
  by (simp add: held_def)

lemma held_nth:
  "i < nat (num_filled t) \<Longrightarrow>
   held t ! i = (page_numbers t ! ((nat (head_position t) + i) mod 16),
                 frame_numbers t ! ((nat (head_position t) + i) mod 16))"
  by (simp add: held_def)

lemma search_TLB_loop_find:
  "0 \<le> head_position t \<Longrightarrow> 0 \<le> i \<Longrightarrow>
   search_TLB_loop t p i =
     (case find (\<lambda>e. fst e = p) (drop (nat i) (held t)) of None \<Rightarrow> - 1 | Some e \<Rightarrow> snd e)"
proof (induction t p i rule: search_TLB_loop.induct)
  case (1 t p i)
  show ?case
  proof (cases "i < num_filled t")
    case True
    then have lt: "nat i < nat (num_filled t)" using 1(3) by simp
    have n: "nat (i + 1) = Suc (nat i)" using 1(3) by simp
    have d: "drop (nat i) (held t) = held t ! nat i # drop (Suc (nat i)) (held t)"
      using lt by (simp add: Cons_nth_drop_Suc)
    show ?thesis
    proof (cases "page_numbers t ! nat (c_rem (head_position t + i) 16) = p")
      case True
      with \<open>i < num_filled t\<close> lt 1(2,3) show ?thesis
        by (subst search_TLB_loop.simps) (simp add: d held_nth slot_eq)
    next
      case False
      have "search_TLB_loop t p i = search_TLB_loop t p (i + 1)"
        using False \<open>i < num_filled t\<close> by (subst search_TLB_loop.simps) simp
      also have "\<dots> = (case find (\<lambda>e. fst e = p) (drop (nat (i + 1)) (held t)) of
                          None \<Rightarrow> - 1 | Some e \<Rightarrow> snd e)"
        using 1(1)[OF \<open>i < num_filled t\<close> False] 1(2,3) by simp
      finally show ?thesis
        using False lt 1(2,3) by (simp add: d n held_nth slot_eq)
    qed
  next
    case False
    then show ?thesis
      by (subst search_TLB_loop.simps) simp
  qed
qed

lemma search_TLB_find:
  "0 \<le> head_position t \<Longrightarrow>
   search_TLB t p = (case find (\<lambda>e. fst e = p) (held t) of None \<Rightarrow> - 1 | Some e \<Rightarrow> snd e)"
  by (simp add: search_TLB_def search_TLB_loop_find)

lemma held_update_spare:
  assumes "tlb_ok t" "num_filled t < 16"
  shows "held (update_TLB t p f) = held t @ [(p, f)]"
proof -
  have h: "head_position t = 0" and n0: "0 \<le> num_filled t"
    and l: "length (page_numbers t) = 16" "length (frame_numbers t) = 16"
    using assms by (auto simp: tlb_ok_def)
  have n: "nat (num_filled t + 1) = Suc (nat (num_filled t))" using n0 by simp
  have lt: "nat (num_filled t) < 16" using assms(2) n0 by simp
  show ?thesis
    using assms(2) lt l
    by (simp add: held_def update_TLB_def h n)
qed

lemma ring_last: "h < 16 \<Longrightarrow> (Suc h mod 16 + 15) mod 16 = (h::nat)"
  by (simp add: mod_add_left_eq)

lemma ring_other: "h < 16 \<Longrightarrow> i < 15 \<Longrightarrow> (Suc h mod 16 + i) mod 16 \<noteq> (h::nat)"
proof -
  assume a: "h < 16" "i < 15"
  have "(Suc h mod 16 + i) mod 16 = (h + Suc i) mod 16"
    by (simp add: mod_add_left_eq)
  moreover have "(h + Suc i) mod 16 \<noteq> h"
  proof (cases "h + Suc i < 16")
    case True
    then show ?thesis by simp
  next
    case False
    then have "(h + Suc i) mod 16 = h + Suc i - 16"
      using a by (simp add: mod_if)
    then show ?thesis using a False by arith
  qed
  ultimately show ?thesis by simp
qed

lemma held_update_full:
  assumes "tlb_ok t" "num_filled t = 16"
  shows "held (update_TLB t p f) = tl (held t) @ [(p, f)]"
proof (rule nth_equalityI)
  have h: "0 \<le> head_position t" "head_position t < 16"
    and l: "length (page_numbers t) = 16" "length (frame_numbers t) = 16"
    using assms by (auto simp: tlb_ok_def)
  let ?h = "nat (head_position t)"
  have hn: "?h < 16" using h by simp
  have h': "nat (c_rem (head_position t + 1) 16) = Suc ?h mod 16"
    using slot_eq[of "head_position t" 1] h by simp
  show "length (held (update_TLB t p f)) = length (tl (held t) @ [(p, f)])"
    using assms(2) by (simp add: update_TLB_def)
  fix i assume "i < length (held (update_TLB t p f))"
  then have i: "i < 16" using assms(2) by (simp add: update_TLB_def)
  have s: "(Suc ?h mod 16 + i) mod 16 = (?h + Suc i) mod 16"
    by (simp add: mod_add_left_eq)
  show "held (update_TLB t p f) ! i = (tl (held t) @ [(p, f)]) ! i"
  proof (cases "i = 15")
    case True
    have "(Suc ?h mod 16 + 15) mod 16 = ?h" using hn by (rule ring_last)
    then show ?thesis
      using True assms(2) l hn
      by (simp add: held_nth update_TLB_def h' nth_append)
  next
    case False
    then have i': "Suc i < 16" using i by simp
    have i15: "i < 15" using False i by simp
    have ne: "(Suc ?h mod 16 + i) mod 16 \<noteq> ?h" using hn i15 by (rule ring_other)
    from i15 show ?thesis
      using ne assms(2) i i' l hn
      by (simp add: held_nth update_TLB_def h' nth_append nth_tl s)
  qed
qed

lemma tlb_ok_update: "tlb_ok t \<Longrightarrow> tlb_ok (update_TLB t p f)"
  by (auto simp: tlb_ok_def update_TLB_def c_rem_nonneg)

section \<open>Ranges of page numbers and offsets\<close>

lemma get_page_number_range: "0 \<le> get_page_number a \<and> get_page_number a < 256"
proof -
  let ?x = "a AND 0xFF00"
  have lo: "0 \<le> ?x" by simp
  have hi: "?x \<le> 0xFF00" by (rule AND_upper2) simp
  have "0 \<le> ?x div 256"
    using lo by (rule pos_imp_zdiv_nonneg_iff[THEN iffD2, rotated]) simp
  moreover have "?x div 256 \<le> 0xFF00 div 256" using hi by (rule zdiv_mono1) simp
  then have "?x div 256 < 256" by simp
  ultimately show ?thesis
    unfolding get_page_number_def by (simp only: drop_bit_eq_div) simp
qed

lemma get_offset_range: "0 \<le> get_offset a \<and> get_offset a < 256"
proof -
  have "0 \<le> a AND 0xFF" by simp
  moreover have "a AND 0xFF \<le> 0xFF" by (rule AND_upper2) simp
  ultimately show ?thesis
    by (simp add: get_offset_def)
qed

lemma finite_mapped [simp]: "finite (mapped pt)"
proof (rule finite_subset)
  show "mapped pt \<subseteq> {0..<256}" by (auto simp: mapped_def)
qed simp

lemma card_mapped_less:
  assumes "0 \<le> p" "p < 256" "p \<notin> mapped pt"
  shows "card (mapped pt) < 256"
proof -
  have "mapped pt \<subseteq> {0..<256} - {p}" using assms(3) by (auto simp: mapped_def)
  then have "card (mapped pt) \<le> card ({0..<256::int} - {p})" by (intro card_mono) simp_all
  also have "\<dots> < 256" using assms(1,2) by simp
  finally show ?thesis .
qed

lemma mapped_update:
  "length pt = 256 \<Longrightarrow> 0 \<le> p \<Longrightarrow> p < 256 \<Longrightarrow> f \<noteq> - 1 \<Longrightarrow>
   mapped (pt[nat p := f]) = insert p (mapped pt)"
  by (auto simp: mapped_def nth_list_update)

section \<open>What a probe of the buffer returns\<close>

lemma search_TLB_miss:
  assumes "0 \<le> head_position t" "search_TLB t p = - 1" "\<forall>e \<in> set (held t). snd e \<noteq> - 1"
  shows "p \<notin> fst ` set (held t)"
proof
  assume "p \<in> fst ` set (held t)"
  then obtain e where e: "find (\<lambda>e. fst e = p) (held t) = Some e"
    by (cases "find (\<lambda>e. fst e = p) (held t)") (auto simp: find_None_iff)
  then have "e \<in> set (held t)" by (auto simp: find_Some_iff)
  moreover have "snd e = - 1" using assms(1,2) e by (simp add: search_TLB_find)
  ultimately show False using assms(3) by blast
qed

lemma search_TLB_hit:
  assumes "0 \<le> head_position t" "search_TLB t p \<noteq> - 1"
  shows "(p, search_TLB t p) \<in> set (held t)"
proof -
  obtain e where e: "find (\<lambda>e. fst e = p) (held t) = Some e"
    using assms by (cases "find (\<lambda>e. fst e = p) (held t)") (auto simp: search_TLB_find)
  then have "e \<in> set (held t)" "fst e = p" by (auto simp: find_Some_iff)
  moreover have "snd e = search_TLB t p" using assms(1) e by (simp add: search_TLB_find)
  ultimately have "e \<in> set (held t)" "e = (p, search_TLB t p)"
    by (simp_all add: prod_eq_iff)
  then show ?thesis by simp
qed

lemma search_TLB_last:
  assumes "0 \<le> head_position t" "held t = q @ [(p, f)]" "p \<notin> fst ` set q"
  shows "search_TLB t p = f"
proof -
  have "\<forall>e \<in> set q. fst e \<noteq> p" using assms(3) by force
  then have "find (\<lambda>e. fst e = p) (q @ [(p, f)]) = Some (p, f)"
    by (induction q) auto
  then show ?thesis using assms(1,2) by (simp add: search_TLB_find)
qed

lemma held_update:
  "tlb_ok t \<Longrightarrow>
   held (update_TLB t p f) = (if num_filled t = 16 then tl (held t) else held t) @ [(p, f)]"
  using held_update_full[of t p f] held_update_spare[of t p f]
  by (auto simp: tlb_ok_def)

lemma in_set_tlD: "x \<in> set (tl xs) \<Longrightarrow> x \<in> set xs"
  by (cases xs) auto

lemma search_TLB_after_update:
  assumes "tlb_ok t" "p \<notin> fst ` set (held t)"
  shows "search_TLB (update_TLB t p f) p = f"
proof (rule search_TLB_last)
  show "0 \<le> head_position (update_TLB t p f)"
    using tlb_ok_update[OF assms(1)] by (simp add: tlb_ok_def)
  show "held (update_TLB t p f) = (if num_filled t = 16 then tl (held t) else held t) @ [(p, f)]"
    by (rule held_update[OF assms(1)])
  show "p \<notin> fst ` set (if num_filled t = 16 then tl (held t) else held t)"
  proof
    assume "p \<in> fst ` set (if num_filled t = 16 then tl (held t) else held t)"
    then obtain e where "e \<in> set (held t)" "fst e = p"
      by (auto split: if_splits dest: in_set_tlD)
    then show False using assms(2) by force
  qed
qed

section \<open>The three ways through the lookup\<close>

lemma held_frames_valid:
  assumes "tlb_agrees s" "e \<in> set (held (TLB s))"
  shows "snd e \<noteq> - 1"
  using assms by (auto simp: tlb_agrees_def mapped_def)

lemma miss_not_held:
  assumes "consistent d s" "search_TLB (TLB s) p = - 1"
  shows "p \<notin> fst ` set (held (TLB s))"
proof (rule search_TLB_miss[OF _ assms(2)])
  show "0 \<le> head_position (TLB s)" using assms(1) by (simp add: consistent_def tlb_ok_def)
  show "\<forall>e \<in> set (held (TLB s)). snd e \<noteq> - 1"
    using assms(1) held_frames_valid by (auto simp: consistent_def)
qed

lemma hit_held:
  assumes "consistent d s" "search_TLB (TLB s) p \<noteq> - 1"
  shows "(p, search_TLB (TLB s) p) \<in> set (held (TLB s))"
  using assms by (intro search_TLB_hit) (simp_all add: consistent_def tlb_ok_def)

lemma hit_mapped:
  assumes "consistent d s" "search_TLB (TLB s) p \<noteq> - 1"
  shows "p \<in> mapped (page_table s) \<and> search_TLB (TLB s) p = page_table s ! nat p"
  using hit_held[OF assms] assms(1) by (force simp: consistent_def tlb_agrees_def)

lemma lookup_frame_hit:
  "search_TLB (TLB s) p \<noteq> - 1 \<Longrightarrow>
   lookup_frame d s p off = (search_TLB (TLB s) p, s\<lparr>num_TLB_hits := num_TLB_hits s + 1\<rparr>)"
  by (simp add: lookup_frame_def Let_def)

lemma lookup_frame_table_hit:
  assumes "consistent d s" "search_TLB (TLB s) p = - 1" "p \<in> mapped (page_table s)"
  shows "lookup_frame d s p off =
           (page_table s ! nat p,
            s\<lparr>TLB := update_TLB (TLB s) p (page_table s ! nat p),
              num_Pg_faults := num_page_faults s\<rparr>)"
proof -
  have ne: "page_table s ! nat p \<noteq> - 1" using assms(3) by (simp add: mapped_def)
  have ok: "tlb_ok (TLB s)" using assms(1) by (simp add: consistent_def)
  have "search_TLB (update_TLB (TLB s) p (page_table s ! nat p)) p = page_table s ! nat p"
    by (rule search_TLB_after_update[OF ok miss_not_held[OF assms(1,2)]])
  then show ?thesis
    using assms(2) ne by (simp add: lookup_frame_def check_page_table_def Let_def)
qed

lemma fault_frame_free:
  assumes "consistent d s" "0 \<le> p" "p < 256" "p \<notin> mapped (page_table s)"
  shows "0 \<le> highest_open_frame (local_memory s) \<and> highest_open_frame (local_memory s) < 256"
  using assms(1) card_mapped_less[OF assms(2-4)] by (simp add: consistent_def table_ok_def)

lemma lookup_frame_fault:
  assumes "consistent d s" "search_TLB (TLB s) p = - 1" "0 \<le> p" "p < 256"
    "p \<notin> mapped (page_table s)"
  shows "lookup_frame d s p off =
           (highest_open_frame (local_memory s),
            s\<lparr>num_page_faults := num_page_faults s + 1,
              local_memory := (local_memory s)
                \<lparr>memory := (memory (local_memory s))
                     [nat (highest_open_frame (local_memory s)) := read_page d p],
                 highest_open_frame := highest_open_frame (local_memory s) + 1\<rparr>,
              page_table := (page_table s)
                 [nat p := highest_open_frame (local_memory s)],
              TLB := update_TLB (TLB s) p (highest_open_frame (local_memory s)),
              num_Pg_faults := num_page_faults s + 1\<rparr>)"
proof -
  let ?m = "local_memory s"
  have un: "page_table s ! nat p = - 1" using assms(3-5) by (simp add: mapped_def)
  have ok: "tlb_ok (TLB s)" using assms(1) by (simp add: consistent_def)
  have f: "0 \<le> highest_open_frame ?m" "highest_open_frame ?m < 256"
    using fault_frame_free[OF assms(1,3-5)] by simp_all
  have mo: "mem_ok ?m" using assms(1) by (simp add: consistent_def)
  then have len: "nat (highest_open_frame ?m) < length (memory ?m)"
    using f by (simp add: mem_ok_def)
  then have row: "length (memory ?m ! nat (highest_open_frame ?m)) = 256"
    using mo by (simp add: mem_ok_def)
  have ld: "load_page_disk_to_memory d ?m p off =
     (highest_open_frame ?m,
      ?m\<lparr>memory := (memory ?m)[nat (highest_open_frame ?m) := read_page d p],
        highest_open_frame := highest_open_frame ?m + 1\<rparr>)"
    by (rule load_page_disk_to_memory_eq[OF f(1) len row])
  have "search_TLB (update_TLB (TLB s) p (highest_open_frame ?m)) p = highest_open_frame ?m"
    by (rule search_TLB_after_update[OF ok miss_not_held[OF assms(1,2)]])
  then show ?thesis
    using assms(2) un
    by (simp add: lookup_frame_def check_page_table_def Let_def ld update_page_table_def)
qed

section \<open>The invariant of the loop\<close>

lemma held_after_update:
  assumes "tlb_ok t" "distinct (map fst (held t))" "\<forall>e \<in> set (held t). P e"
    "p \<notin> fst ` set (held t)" "P (p, f)"
  shows "distinct (map fst (held (update_TLB t p f))) \<and>
         (\<forall>e \<in> set (held (update_TLB t p f)). P e)"
proof -
  let ?q = "if num_filled t = 16 then tl (held t) else held t"
  have q: "held (update_TLB t p f) = ?q @ [(p, f)]" by (rule held_update[OF assms(1)])
  have sub: "set ?q \<subseteq> set (held t)" by (auto dest: in_set_tlD)
  have "distinct (map fst ?q)" using assms(2) by (simp add: distinct_tl map_tl)
  moreover have "p \<notin> fst ` set ?q" using sub assms(4) by blast
  ultimately have "distinct (map fst (?q @ [(p, f)]))" by simp
  moreover have "\<forall>e \<in> set (?q @ [(p, f)]). P e" using sub assms(3,5) by auto
  ultimately show ?thesis by (simp only: q) 
qed

lemma consistent_counters [simp]:
  "consistent d (s\<lparr>num_TLB_hits := h\<rparr>) = consistent d s"
  "consistent d (s\<lparr>num_addresses_processed := n\<rparr>) = consistent d s"
  "consistent d (s\<lparr>printed := out\<rparr>) = consistent d s"
  by (simp_all add: consistent_def table_ok_def tlb_agrees_def frames_loaded_def)

lemma consistent_cong:
  "TLB s' = TLB s \<Longrightarrow> local_memory s' = local_memory s \<Longrightarrow> page_table s' = page_table s \<Longrightarrow>
   num_Pg_faults s' = num_Pg_faults s \<Longrightarrow> num_page_faults s' = num_page_faults s \<Longrightarrow>
   consistent d s' = consistent d s"
  by (simp add: consistent_def table_ok_def tlb_agrees_def frames_loaded_def)

lemma consistent_table_hit:
  assumes "consistent d s" "search_TLB (TLB s) p = - 1" "p \<in> mapped (page_table s)"
  shows "consistent d (s\<lparr>TLB := update_TLB (TLB s) p (page_table s ! nat p),
                         num_Pg_faults := num_page_faults s\<rparr>)"
proof -
  have ok: "tlb_ok (TLB s)" and ag: "tlb_agrees s" using assms(1) by (simp_all add: consistent_def)
  have "distinct (map fst (held (update_TLB (TLB s) p (page_table s ! nat p)))) \<and>
        (\<forall>e \<in> set (held (update_TLB (TLB s) p (page_table s ! nat p))).
           fst e \<in> mapped (page_table s) \<and> snd e = page_table s ! nat (fst e))"
    using ok ag miss_not_held[OF assms(1,2)] assms(3)
    by (intro held_after_update) (simp_all add: tlb_agrees_def)
  then show ?thesis
    using assms(1) tlb_ok_update[OF ok]
    by (simp add: consistent_def table_ok_def tlb_agrees_def frames_loaded_def)
qed

lemma consistent_fault:
  assumes "consistent d s" "search_TLB (TLB s) p = - 1" "0 \<le> p" "p < 256"
    "p \<notin> mapped (page_table s)"
  shows "consistent d
           (s\<lparr>num_page_faults := num_page_faults s + 1,
              local_memory := (local_memory s)
                \<lparr>memory := (memory (local_memory s))
                     [nat (highest_open_frame (local_memory s)) := read_page d p],
                 highest_open_frame := highest_open_frame (local_memory s) + 1\<rparr>,
              page_table := (page_table s)
                 [nat p := highest_open_frame (local_memory s)],
              TLB := update_TLB (TLB s) p (highest_open_frame (local_memory s)),
              num_Pg_faults := num_page_faults s + 1\<rparr>)"
    (is "consistent d ?s'")
proof -
  let ?m = "local_memory s" and ?pt = "page_table s"
  let ?f = "highest_open_frame (local_memory s)"
  let ?pt' = "?pt[nat p := ?f]"
  have ok: "tlb_ok (TLB s)" and ag: "tlb_agrees s" and mo: "mem_ok ?m"
    and tb: "table_ok s" and fl: "frames_loaded d s"
    and cnt: "num_Pg_faults s = num_page_faults s" "num_page_faults s = ?f"
    using assms(1) by (simp_all add: consistent_def)
  have f: "0 \<le> ?f" "?f < 256"
    using fault_frame_free[OF assms(1,3-5)] by simp_all
  have len: "length ?pt = 256" using tb by (simp add: table_ok_def)
  have mp: "mapped ?pt' = insert p (mapped ?pt)"
    using len assms(3,4) f by (intro mapped_update) simp_all
  have old: "\<And>q. q \<in> mapped ?pt \<Longrightarrow> ?pt' ! nat q = ?pt ! nat q \<and> 0 \<le> ?pt ! nat q \<and> ?pt ! nat q < ?f"
  proof -
    fix q assume q: "q \<in> mapped ?pt"
    then have "q \<noteq> p" "0 \<le> q" using assms(5) by (auto simp: mapped_def)
    then have "nat q \<noteq> nat p" using assms(3) by simp
    then show "?pt' ! nat q = ?pt ! nat q \<and> 0 \<le> ?pt ! nat q \<and> ?pt ! nat q < ?f"
      using q tb by (simp add: table_ok_def)
  qed
  have new: "?pt' ! nat p = ?f" using len assms(3,4) by simp
  have 1: "tlb_ok (TLB ?s')" using tlb_ok_update[OF ok] by simp
  have 2: "mem_ok (local_memory ?s')"
  proof -
    have "set ((memory ?m)[nat ?f := read_page d p]) \<subseteq> insert (read_page d p) (set (memory ?m))"
      by (rule set_update_subset_insert)
    then show ?thesis
      using mo length_read_page[of d p] by (auto simp: mem_ok_def)
  qed
  have 3: "table_ok ?s'"
  proof -
    have "card (mapped ?pt') = Suc (card (mapped ?pt))"
      using assms(5) by (simp add: mp)
    moreover have "\<forall>q \<in> mapped ?pt'. 0 \<le> ?pt' ! nat q \<and> ?pt' ! nat q < ?f + 1"
    proof
      fix q assume "q \<in> mapped ?pt'"
      then consider "q = p" | "q \<in> mapped ?pt" by (auto simp: mp)
      then show "0 \<le> ?pt' ! nat q \<and> ?pt' ! nat q < ?f + 1"
      proof cases
        case 1
        then show ?thesis using new f by simp
      next
        case 2
        then show ?thesis using old[of q] by simp
      qed
    qed
    moreover have "inj_on (\<lambda>q. ?pt' ! nat q) (mapped ?pt')"
    proof (rule inj_onI)
      fix x y assume xy: "x \<in> mapped ?pt'" "y \<in> mapped ?pt'" "?pt' ! nat x = ?pt' ! nat y"
      have inj: "inj_on (\<lambda>q. ?pt ! nat q) (mapped ?pt)" using tb by (simp add: table_ok_def)
      show "x = y"
      proof (cases "x = p \<or> y = p")
        case True
        then show ?thesis using xy old[of x] old[of y] new by (auto simp: mp)
      next
        case False
        then have "x \<in> mapped ?pt" "y \<in> mapped ?pt" using xy by (simp_all add: mp)
        then show ?thesis using xy(3) old[of x] old[of y] inj by (simp add: inj_on_def)
      qed
    qed
    ultimately show ?thesis
      using tb len by (simp add: table_ok_def)
  qed
  have 4: "tlb_agrees ?s'"
  proof -
    have "distinct (map fst (held (update_TLB (TLB s) p ?f))) \<and>
          (\<forall>e \<in> set (held (update_TLB (TLB s) p ?f)).
             fst e \<in> mapped ?pt' \<and> snd e = ?pt' ! nat (fst e))"
    proof (rule held_after_update[OF ok _ _ miss_not_held[OF assms(1,2)]])
      show "distinct (map fst (held (TLB s)))" using ag by (simp add: tlb_agrees_def)
      show "\<forall>e \<in> set (held (TLB s)). fst e \<in> mapped ?pt' \<and> snd e = ?pt' ! nat (fst e)"
        using ag old by (auto simp: tlb_agrees_def mp)
      show "fst (p, ?f) \<in> mapped ?pt' \<and> snd (p, ?f) = ?pt' ! nat (fst (p, ?f))"
        using new by (simp add: mp)
    qed
    then show ?thesis by (simp add: tlb_agrees_def)
  qed
  have 5: "frames_loaded d ?s'"
  proof -
    have lm: "nat ?f < length (memory ?m)" using mo f by (simp add: mem_ok_def)
    have "\<forall>q \<in> mapped ?pt'. (memory ?m)[nat ?f := read_page d p] ! nat (?pt' ! nat q) = read_page d q"
    proof
      fix q assume q: "q \<in> mapped ?pt'"
      show "(memory ?m)[nat ?f := read_page d p] ! nat (?pt' ! nat q) = read_page d q"
      proof (cases "q = p")
        case True
        then show ?thesis using new lm by simp
      next
        case False
        then have qm: "q \<in> mapped ?pt" using q by (simp add: mp)
        have "nat (?pt ! nat q) \<noteq> nat ?f" using old[OF qm] f by linarith
        then show ?thesis using old[OF qm] fl qm by (simp add: frames_loaded_def)
      qed
    qed
    then show ?thesis by (simp add: frames_loaded_def)
  qed
  show ?thesis
    using 1 2 3 4 5 cnt by (simp add: consistent_def)
qed

section \<open>One pass of the loop\<close>

lemma process_address_hit:
  assumes "search_TLB (TLB s) (get_page_number a) \<noteq> - 1"
  shows "process_address d s a =
     s\<lparr>num_addresses_processed := num_addresses_processed s + 1,
       num_TLB_hits := num_TLB_hits s + 1,
       printed := printed s @
         [(a, search_TLB (TLB s) (get_page_number a) * 256 + get_offset a,
           sint (memory (local_memory s) ! nat (search_TLB (TLB s) (get_page_number a))
                   ! nat (get_offset a)))]\<rparr>"
  using assms by (simp add: process_address_def Let_def lookup_frame_hit)

lemma process_address_table_hit:
  assumes "consistent d s" "search_TLB (TLB s) (get_page_number a) = - 1"
    "get_page_number a \<in> mapped (page_table s)"
  shows "process_address d s a =
     s\<lparr>num_addresses_processed := num_addresses_processed s + 1,
       TLB := update_TLB (TLB s) (get_page_number a) (page_table s ! nat (get_page_number a)),
       num_Pg_faults := num_page_faults s,
       printed := printed s @
         [(a, page_table s ! nat (get_page_number a) * 256 + get_offset a,
           sint (memory (local_memory s) ! nat (page_table s ! nat (get_page_number a))
                   ! nat (get_offset a)))]\<rparr>"
proof -
  let ?s0 = "s\<lparr>num_addresses_processed := num_addresses_processed s + 1\<rparr>"
  have "consistent d ?s0" using assms(1) by simp
  then show ?thesis
    using assms(2,3)
    by (simp add: process_address_def Let_def lookup_frame_table_hit[of d ?s0])
qed

lemma process_address_fault:
  assumes "consistent d s" "search_TLB (TLB s) (get_page_number a) = - 1"
    "get_page_number a \<notin> mapped (page_table s)"
  shows "process_address d s a =
     s\<lparr>num_addresses_processed := num_addresses_processed s + 1,
       num_page_faults := num_page_faults s + 1,
       local_memory := (local_memory s)
         \<lparr>memory := (memory (local_memory s))
              [nat (highest_open_frame (local_memory s)) := read_page d (get_page_number a)],
          highest_open_frame := highest_open_frame (local_memory s) + 1\<rparr>,
       page_table := (page_table s)
          [nat (get_page_number a) := highest_open_frame (local_memory s)],
       TLB := update_TLB (TLB s) (get_page_number a) (highest_open_frame (local_memory s)),
       num_Pg_faults := num_page_faults s + 1,
       printed := printed s @
         [(a, highest_open_frame (local_memory s) * 256 + get_offset a,
           sint (read_page d (get_page_number a) ! nat (get_offset a)))]\<rparr>"
proof -
  let ?s0 = "s\<lparr>num_addresses_processed := num_addresses_processed s + 1\<rparr>"
  have c: "consistent d ?s0" using assms(1) by simp
  have r: "0 \<le> get_page_number a" "get_page_number a < 256"
    using get_page_number_range[of a] by simp_all
  have "0 \<le> highest_open_frame (local_memory s)" "highest_open_frame (local_memory s) < 256"
    using fault_frame_free[OF assms(1) r assms(3)] by simp_all
  then have "nat (highest_open_frame (local_memory s)) < length (memory (local_memory s))"
    using assms(1) by (simp add: consistent_def mem_ok_def)
  then show ?thesis
    using assms(2,3) r
    by (simp add: process_address_def Let_def lookup_frame_fault[OF c])
qed

lemma miss_unmapped_is_fault:
  "get_page_number a \<notin> mapped (page_table s) \<longleftrightarrow> page_table s ! nat (get_page_number a) = - 1"
  using get_page_number_range[of a] by (simp add: mapped_def)

lemma consistent_process_address:
  assumes "consistent d s"
  shows "consistent d (process_address d s a)"
proof (cases "search_TLB (TLB s) (get_page_number a) = - 1")
  case False
  then show ?thesis using assms by (simp add: process_address_hit)
next
  case miss: True
  show ?thesis
  proof (cases "get_page_number a \<in> mapped (page_table s)")
    case True
    have "consistent d (process_address d s a) =
          consistent d (s\<lparr>TLB := update_TLB (TLB s) (get_page_number a)
                                 (page_table s ! nat (get_page_number a)),
                          num_Pg_faults := num_page_faults s\<rparr>)"
      by (rule consistent_cong) (simp_all add: process_address_table_hit[OF assms miss True])
    then show ?thesis
      using consistent_table_hit[OF assms miss True] by simp
  next
    case False
    have r: "0 \<le> get_page_number a" "get_page_number a < 256"
      using get_page_number_range[of a] by simp_all
    show ?thesis
      using consistent_fault[OF assms miss r False]
      by (rule consistent_cong[THEN iffD2, rotated -1])
        (simp_all add: process_address_fault[OF assms miss False])
  qed
qed

lemma consistent_run_from:
  "consistent d s \<Longrightarrow> consistent d (run_from d s as)"
  by (induction as arbitrary: s) (simp_all add: consistent_process_address)

lemma mapped_start [simp]: "mapped (page_table start) = {}"
  by (auto simp: start_eq mapped_def)

lemma held_start [simp]: "held (TLB start) = []"
  by (simp add: start_eq held_def)

lemma consistent_start: "consistent d start"
proof -
  have "tlb_ok (TLB start)" by (simp add: start_eq tlb_ok_def)
  moreover have "mem_ok (local_memory start)" by (simp add: start_eq mem_ok_def)
  moreover have "table_ok start" using mapped_start by (simp add: table_ok_def) (simp add: start_eq)
  moreover have "tlb_agrees start" by (simp add: tlb_agrees_def)
  moreover have "frames_loaded d start" by (simp add: frames_loaded_def)
  ultimately show ?thesis by (simp add: consistent_def) (simp add: start_eq)
qed

lemma consistent_run: "consistent d (run d as)"
  by (simp add: run_def consistent_run_from consistent_start)

lemma run_from_append: "run_from d s (as @ bs) = run_from d (run_from d s as) bs"
  by (induction as arbitrary: s) simp_all

lemma run_append: "run d (as @ bs) = run_from d (run d as) bs"
  by (simp add: run_def run_from_append)

lemma run_snoc: "run d (as @ [a]) = process_address d (run d as) a"
  by (simp add: run_append)

section \<open>Pages with a page-table entry\<close>

lemma mapped_process_address:
  assumes "consistent d s"
  shows "mapped (page_table (process_address d s a)) = insert (get_page_number a) (mapped (page_table s))"
proof (cases "search_TLB (TLB s) (get_page_number a) = - 1")
  case False
  then show ?thesis using hit_mapped[OF assms False] by (auto simp: process_address_hit)
next
  case miss: True
  show ?thesis
  proof (cases "get_page_number a \<in> mapped (page_table s)")
    case True
    then show ?thesis by (auto simp: process_address_table_hit[OF assms miss True])
  next
    case False
    have r: "0 \<le> get_page_number a" "get_page_number a < 256"
      using get_page_number_range[of a] by simp_all
    have f: "0 \<le> highest_open_frame (local_memory s)"
      using fault_frame_free[OF assms r False] by simp
    have len: "length (page_table s) = 256" using assms by (simp add: consistent_def table_ok_def)
    show ?thesis
      using mapped_update[OF len r, of "highest_open_frame (local_memory s)"] f
      by (simp add: process_address_fault[OF assms miss False])
  qed
qed

lemma mapped_run_from:
  "consistent d s \<Longrightarrow>
   mapped (page_table (run_from d s as)) = mapped (page_table s) \<union> get_page_number ` set as"
  by (induction as arbitrary: s) (simp_all add: consistent_process_address mapped_process_address)

lemma mapped_run: "mapped (page_table (run d as)) = get_page_number ` set as"
  by (simp add: run_def mapped_run_from consistent_start)

lemma num_Pg_faults_fault:
  assumes "consistent d s" "get_page_number a \<notin> mapped (page_table s)"
  shows "search_TLB (TLB s) (get_page_number a) = - 1"
    and "num_Pg_faults (process_address d s a) = num_Pg_faults s + 1"
    and "num_page_faults (process_address d s a) = num_page_faults s + 1"
proof -
  show miss: "search_TLB (TLB s) (get_page_number a) = - 1"
    using hit_mapped[OF assms(1)] assms(2) by blast
  show "num_Pg_faults (process_address d s a) = num_Pg_faults s + 1"
    using assms(1) by (simp add: process_address_fault[OF assms(1) miss assms(2)] consistent_def)
  show "num_page_faults (process_address d s a) = num_page_faults s + 1"
    by (simp add: process_address_fault[OF assms(1) miss assms(2)])
qed

section \<open>First reference to a page\<close>

text \<open>
  C1. The first time a page number is referenced in the address stream, the probe of the
  translation lookaside buffer misses, the page table has no entry for the page, and the
  reference is counted as a page fault: both the static counter of \<open>check_page_table\<close>
  and the counter of \<open>main\<close> grow by one. This holds for every disk content and every
  earlier part of the stream, whatever the buffer holds at that moment.
\<close>

theorem first_touch_is_page_fault:
  "get_page_number a \<notin> get_page_number ` set as \<Longrightarrow>
   search_TLB (TLB (run d as)) (get_page_number a) = - 1 \<and>
   page_table (run d as) ! nat (get_page_number a) = - 1 \<and>
   num_page_faults (process_address d (run d as) a) = num_page_faults (run d as) + 1 \<and>
   num_Pg_faults (process_address d (run d as) a) = num_Pg_faults (run d as) + 1"
proof -
  assume "get_page_number a \<notin> get_page_number ` set as"
  then have un: "get_page_number a \<notin> mapped (page_table (run d as))"
    by (simp add: mapped_run)
  show ?thesis
    using num_Pg_faults_fault[OF consistent_run un] un
    by (simp add: miss_unmapped_is_fault)
qed

theorem first_touch_is_page_fault_witness:
  "get_page_number 513 \<notin> get_page_number ` set [0, 256] \<and>
   search_TLB (TLB (run [] [0, 256])) (get_page_number 513) = - 1 \<and>
   page_table (run [] [0, 256]) ! nat (get_page_number 513) = - 1 \<and>
   num_Pg_faults (process_address [] (run [] [0, 256]) 513) = num_Pg_faults (run [] [0, 256]) + 1"
  using first_touch_is_page_fault[of 513 "[0, 256]" "[]"]
  by (simp add: get_page_number_def)

section \<open>The frame a lookup returns\<close>

lemma highest_open_frame_range:
  assumes "consistent d s"
  shows "0 \<le> highest_open_frame (local_memory s) \<and> highest_open_frame (local_memory s) \<le> 256"
proof -
  have "mapped (page_table s) \<subseteq> {0..<256}" by (auto simp: mapped_def)
  then have "card (mapped (page_table s)) \<le> card {0..<256::int}" by (intro card_mono) simp_all
  then show ?thesis using assms by (simp add: consistent_def table_ok_def)
qed

lemma mapped_frame_range:
  assumes "consistent d s" "p \<in> mapped (page_table s)"
  shows "0 \<le> page_table s ! nat p \<and> page_table s ! nat p < highest_open_frame (local_memory s)"
  using assms by (simp add: consistent_def table_ok_def)

lemma lookup_frame_fst:
  assumes "consistent d s" "0 \<le> p" "p < 256"
  shows "fst (lookup_frame d s p off) =
           (if p \<in> mapped (page_table s) then page_table s ! nat p
            else highest_open_frame (local_memory s))"
proof (cases "search_TLB (TLB s) p = - 1")
  case False
  then show ?thesis using hit_mapped[OF assms(1) False] by (simp add: lookup_frame_hit)
next
  case True
  then show ?thesis
    using lookup_frame_table_hit[OF assms(1) True, of off]
      lookup_frame_fault[OF assms(1) True assms(2,3), of off]
    by (cases "p \<in> mapped (page_table s)") simp_all
qed

lemma resolved_frame_eq:
  assumes "consistent d s"
  shows "resolved_frame d s a =
           (if get_page_number a \<in> mapped (page_table s)
            then page_table s ! nat (get_page_number a)
            else highest_open_frame (local_memory s))"
proof -
  let ?s0 = "s\<lparr>num_addresses_processed := num_addresses_processed s + 1\<rparr>"
  have "consistent d ?s0" using assms by simp
  then show ?thesis
    using lookup_frame_fst[of d ?s0 "get_page_number a" "get_offset a"]
      get_page_number_range[of a]
    by (simp add: resolved_frame_def)
qed

lemma resolved_frame_range:
  assumes "consistent d s"
  shows "0 \<le> resolved_frame d s a \<and> resolved_frame d s a < 256"
proof (cases "get_page_number a \<in> mapped (page_table s)")
  case True
  then show ?thesis
    using mapped_frame_range[OF assms True] highest_open_frame_range[OF assms]
    by (simp add: resolved_frame_eq[OF assms])
next
  case False
  then show ?thesis
    using fault_frame_free[OF assms _ _ False] get_page_number_range[of a]
    by (simp add: resolved_frame_eq[OF assms])
qed

lemma TLB_process_address:
  assumes "consistent d s"
  shows "TLB (process_address d s a) =
           (if search_TLB (TLB s) (get_page_number a) = - 1
            then update_TLB (TLB s) (get_page_number a) (resolved_frame d s a)
            else TLB s)"
proof (cases "search_TLB (TLB s) (get_page_number a) = - 1")
  case False
  then show ?thesis by (simp add: process_address_hit)
next
  case miss: True
  show ?thesis
  proof (cases "get_page_number a \<in> mapped (page_table s)")
    case True
    then show ?thesis
      using miss by (simp add: process_address_table_hit[OF assms miss True] resolved_frame_eq[OF assms])
  next
    case False
    then show ?thesis
      using miss by (simp add: process_address_fault[OF assms miss False] resolved_frame_eq[OF assms])
  qed
qed

lemma page_table_process_address:
  assumes "consistent d s"
  shows "page_table (process_address d s a) =
           (if get_page_number a \<in> mapped (page_table s) then page_table s
            else (page_table s)[nat (get_page_number a) := highest_open_frame (local_memory s)])"
proof (cases "search_TLB (TLB s) (get_page_number a) = - 1")
  case False
  then show ?thesis using hit_mapped[OF assms False] by (simp add: process_address_hit)
next
  case miss: True
  show ?thesis
  proof (cases "get_page_number a \<in> mapped (page_table s)")
    case True
    then show ?thesis by (simp add: process_address_table_hit[OF assms miss True])
  next
    case False
    then show ?thesis by (simp add: process_address_fault[OF assms miss False])
  qed
qed

lemma page_table_process_address_stable:
  assumes "consistent d s" "q \<in> mapped (page_table s)"
  shows "page_table (process_address d s a) ! nat q = page_table s ! nat q"
proof (cases "get_page_number a \<in> mapped (page_table s)")
  case True
  then show ?thesis by (simp add: page_table_process_address[OF assms(1)])
next
  case False
  then have "q \<noteq> get_page_number a" using assms(2) by auto
  moreover have "0 \<le> q" using assms(2) by (simp add: mapped_def)
  moreover have "0 \<le> get_page_number a" using get_page_number_range[of a] by simp
  ultimately have "nat q \<noteq> nat (get_page_number a)" by simp
  then show ?thesis using False by (simp add: page_table_process_address[OF assms(1)])
qed

lemma page_table_run_from_stable:
  "consistent d s \<Longrightarrow> q \<in> mapped (page_table s) \<Longrightarrow>
   page_table (run_from d s as) ! nat q = page_table s ! nat q"
proof (induction as arbitrary: s)
  case Nil
  then show ?case by simp
next
  case (Cons a as)
  have "q \<in> mapped (page_table (process_address d s a))"
    using Cons.prems by (simp add: mapped_process_address)
  then show ?case
    using Cons.IH[OF consistent_process_address[OF Cons.prems(1)]] Cons.prems
    by (simp add: page_table_process_address_stable)
qed

section \<open>Stability of the page table\<close>

text \<open>
  C2. Once the page table has an entry for a page number \<open>p\<close> (after the addresses \<open>as\<close>),
  the entry is the same after any further addresses \<open>bs\<close>, and every later lookup of an
  address on page \<open>p\<close> yields that frame number, whether the buffer or the page table
  answers.
\<close>

theorem page_table_entry_stable:
  "0 \<le> p \<Longrightarrow> p < 256 \<Longrightarrow> page_table (run d as) ! nat p \<noteq> - 1 \<Longrightarrow> get_page_number a = p \<Longrightarrow>
   page_table (run d (as @ bs)) ! nat p = page_table (run d as) ! nat p \<and>
   resolved_frame d (run d (as @ bs)) a = page_table (run d as) ! nat p"
proof -
  assume "0 \<le> p" "p < 256" "page_table (run d as) ! nat p \<noteq> - 1" and a: "get_page_number a = p"
  then have m: "p \<in> mapped (page_table (run d as))" by (simp add: mapped_def)
  have st: "page_table (run d (as @ bs)) ! nat p = page_table (run d as) ! nat p"
    using page_table_run_from_stable[OF consistent_run m] by (simp add: run_append)
  have "p \<in> mapped (page_table (run d (as @ bs)))"
    using m by (auto simp: mapped_run)
  then have "resolved_frame d (run d (as @ bs)) a = page_table (run d (as @ bs)) ! nat p"
    using a by (simp add: resolved_frame_eq[OF consistent_run])
  then show ?thesis using st by simp
qed

theorem page_table_entry_stable_witness:
  "page_table (run [] [256]) ! nat 1 \<noteq> - 1 \<and> get_page_number 300 = 1 \<and>
   page_table (run [] ([256] @ [0, 300])) ! nat 1 = page_table (run [] [256]) ! nat 1 \<and>
   resolved_frame [] (run [] ([256] @ [0, 300])) 300 = page_table (run [] [256]) ! nat 1"
proof -
  have g: "get_page_number 256 = 1" "get_page_number 300 = 1"
    by (simp_all add: get_page_number_def)
  have "1 \<in> mapped (page_table (run [] [256]))" by (simp add: mapped_run g)
  then have h: "page_table (run [] [256]) ! nat 1 \<noteq> - 1" by (simp add: mapped_def)
  show ?thesis
    using h g(2) page_table_entry_stable[of 1 "[]" "[256]" 300 "[0, 300]"] by simp
qed

section \<open>Shape of the translation lookaside buffer\<close>

lemma num_filled_update_TLB:
  "tlb_ok t \<Longrightarrow>
   num_filled t \<le> num_filled (update_TLB t p f) \<and>
   (num_filled t = 16 \<longrightarrow> num_filled (update_TLB t p f) = 16)"
  by (simp add: update_TLB_def)

lemma num_filled_process_address:
  assumes "consistent d s"
  shows "num_filled (TLB s) \<le> num_filled (TLB (process_address d s a)) \<and>
         (num_filled (TLB s) = 16 \<longrightarrow> num_filled (TLB (process_address d s a)) = 16)"
proof -
  have "tlb_ok (TLB s)" using assms by (simp add: consistent_def)
  then show ?thesis
    using num_filled_update_TLB[of "TLB s" "get_page_number a" "resolved_frame d s a"]
    by (simp add: TLB_process_address[OF assms])
qed

lemma num_filled_run_from:
  "consistent d s \<Longrightarrow>
   num_filled (TLB s) \<le> num_filled (TLB (run_from d s as)) \<and>
   (num_filled (TLB s) = 16 \<longrightarrow> num_filled (TLB (run_from d s as)) = 16)"
proof (induction as arbitrary: s)
  case Nil
  then show ?case by simp
next
  case (Cons a as)
  show ?case
    using Cons.IH[OF consistent_process_address[OF Cons.prems], of a]
      num_filled_process_address[OF Cons.prems, of a]
    by auto
qed

lemma tlb_ok_run: "tlb_ok (TLB (run d as))"
  using consistent_run[of d as] by (simp add: consistent_def)

text \<open>
  C10. The structural invariant of the buffer. \<open>initialize_TLB\<close> establishes it and
  \<open>update_TLB\<close> preserves it, for any page and frame number: the count lies between 0 and
  16, the head lies between 0 and 15 and is 0 while the count is below 16; the count
  never decreases and stays 16 once it is 16. (\<open>search_TLB\<close> does not write.) In every
  run the buffer has this shape after any number of addresses, and after further
  addresses the count is no smaller, and still 16 if it was 16.
\<close>

theorem tlb_structure_invariant:
  "(length (page_numbers t0) = 16 \<and> length (frame_numbers t0) = 16 \<longrightarrow>
      tlb_ok (initialize_TLB t0)) \<and>
   (tlb_ok t \<longrightarrow>
      tlb_ok (update_TLB t p f) \<and>
      0 \<le> num_filled (update_TLB t p f) \<and> num_filled (update_TLB t p f) \<le> NUM_TLB_ENTRIES \<and>
      0 \<le> head_position (update_TLB t p f) \<and>
      head_position (update_TLB t p f) < NUM_TLB_ENTRIES \<and>
      (num_filled (update_TLB t p f) < NUM_TLB_ENTRIES \<longrightarrow> head_position (update_TLB t p f) = 0) \<and>
      num_filled t \<le> num_filled (update_TLB t p f) \<and>
      (num_filled t = NUM_TLB_ENTRIES \<longrightarrow> num_filled (update_TLB t p f) = NUM_TLB_ENTRIES)) \<and>
   0 \<le> num_filled (TLB (run d as)) \<and> num_filled (TLB (run d as)) \<le> NUM_TLB_ENTRIES \<and>
   0 \<le> head_position (TLB (run d as)) \<and> head_position (TLB (run d as)) < NUM_TLB_ENTRIES \<and>
   (num_filled (TLB (run d as)) < NUM_TLB_ENTRIES \<longrightarrow> head_position (TLB (run d as)) = 0) \<and>
   num_filled (TLB (run d as)) \<le> num_filled (TLB (run d (as @ bs))) \<and>
   (num_filled (TLB (run d as)) = NUM_TLB_ENTRIES \<longrightarrow>
      num_filled (TLB (run d (as @ bs))) = NUM_TLB_ENTRIES)"
proof -
  have i: "length (page_numbers t0) = 16 \<and> length (frame_numbers t0) = 16 \<longrightarrow>
      tlb_ok (initialize_TLB t0)"
    by (simp add: initialize_TLB_def tlb_ok_def)
  have u: "tlb_ok t \<longrightarrow>
      tlb_ok (update_TLB t p f) \<and>
      0 \<le> num_filled (update_TLB t p f) \<and> num_filled (update_TLB t p f) \<le> 16 \<and>
      0 \<le> head_position (update_TLB t p f) \<and>
      head_position (update_TLB t p f) < 16 \<and>
      (num_filled (update_TLB t p f) < 16 \<longrightarrow> head_position (update_TLB t p f) = 0) \<and>
      num_filled t \<le> num_filled (update_TLB t p f) \<and>
      (num_filled t = 16 \<longrightarrow> num_filled (update_TLB t p f) = 16)"
  proof
    assume ok: "tlb_ok t"
    show "tlb_ok (update_TLB t p f) \<and>
      0 \<le> num_filled (update_TLB t p f) \<and> num_filled (update_TLB t p f) \<le> 16 \<and>
      0 \<le> head_position (update_TLB t p f) \<and>
      head_position (update_TLB t p f) < 16 \<and>
      (num_filled (update_TLB t p f) < 16 \<longrightarrow> head_position (update_TLB t p f) = 0) \<and>
      num_filled t \<le> num_filled (update_TLB t p f) \<and>
      (num_filled t = 16 \<longrightarrow> num_filled (update_TLB t p f) = 16)"
      using tlb_ok_update[OF ok, of p f] num_filled_update_TLB[OF ok, of p f]
      by (simp add: tlb_ok_def)
  qed
  have r: "0 \<le> num_filled (TLB (run d as)) \<and> num_filled (TLB (run d as)) \<le> 16 \<and>
   0 \<le> head_position (TLB (run d as)) \<and> head_position (TLB (run d as)) < 16 \<and>
   (num_filled (TLB (run d as)) < 16 \<longrightarrow> head_position (TLB (run d as)) = 0)"
    using tlb_ok_run[of d as] by (simp add: tlb_ok_def)
  have m: "num_filled (TLB (run d as)) \<le> num_filled (TLB (run d (as @ bs))) \<and>
   (num_filled (TLB (run d as)) = 16 \<longrightarrow> num_filled (TLB (run d (as @ bs))) = 16)"
    using num_filled_run_from[OF consistent_run, of d as bs] by (simp add: run_append)
  from i u r m show ?thesis by blast
qed

text \<open>The equations that evaluate a run on a given disk and a given stream.\<close>

lemmas eval_simps = run_def start_eq process_address_def lookup_frame_def check_page_table_def
  load_page_disk_to_memory_def copy_page_loop_eq read_page_def search_TLB_def
  search_TLB_loop.simps update_TLB_def update_page_table_def get_page_number_def
  get_offset_def c_rem_def Let_def

theorem tlb_structure_invariant_witness:
  "length (page_numbers (TLB zeroed)) = 16 \<and> length (frame_numbers (TLB zeroed)) = 16 \<and>
   tlb_ok (initialize_TLB (TLB zeroed)) \<and>
   tlb_ok (TLB start) \<and> tlb_ok (update_TLB (TLB start) 7 0) \<and>
   num_filled (update_TLB (TLB start) 7 0) = 1 \<and> head_position (update_TLB (TLB start) 7 0) = 0 \<and>
   num_filled (TLB (run [] [0, 256])) = 2 \<and> head_position (TLB (run [] [0, 256])) = 0 \<and>
   num_filled (TLB (run [] [0, 256])) \<le> num_filled (TLB (run [] ([0, 256] @ [512])))"
proof -
  have z: "length (page_numbers (TLB zeroed)) = 16 \<and> length (frame_numbers (TLB zeroed)) = 16"
    by (simp add: zeroed_def)
  have s: "tlb_ok (TLB start)"
    by (simp add: start_eq tlb_ok_def)
  have e: "num_filled (update_TLB (TLB start) 7 0) = 1" "num_filled (TLB (run [] [0, 256])) = 2"
    by (simp_all add: eval_simps)
  show ?thesis
    using z s e tlb_structure_invariant[of "TLB zeroed" "TLB start" 7 0 "[]" "[0, 256]" "[512]"]
    by simp
qed

section \<open>The probe after a miss\<close>







section \<open>One entry per page number\<close>

lemma held_pages_spare:
  assumes "tlb_ok t" "num_filled t < 16"
  shows "map fst (held t) = take (nat (num_filled t)) (page_numbers t)"
proof (rule nth_equalityI)
  have h: "head_position t = 0" and l: "length (page_numbers t) = 16" and n: "0 \<le> num_filled t"
    using assms by (simp_all add: tlb_ok_def)
  show "length (map fst (held t)) = length (take (nat (num_filled t)) (page_numbers t))"
    using assms(2) l n by simp
  fix i assume "i < length (map fst (held t))"
  then have i: "i < nat (num_filled t)" by simp
  then have "i < 16" using assms(2) by simp
  then show "map fst (held t) ! i = take (nat (num_filled t)) (page_numbers t) ! i"
    using i by (simp add: held_nth h)
qed

lemma held_pages_full:
  assumes "tlb_ok t" "num_filled t = 16"
  shows "map fst (held t) = rotate (nat (head_position t)) (page_numbers t)"
proof (rule nth_equalityI)
  have l: "length (page_numbers t) = 16" using assms by (simp add: tlb_ok_def)
  show "length (map fst (held t)) = length (rotate (nat (head_position t)) (page_numbers t))"
    using assms(2) l by simp
  fix i assume "i < length (map fst (held t))"
  then have i: "i < 16" using assms(2) by simp
  then show "map fst (held t) ! i = rotate (nat (head_position t)) (page_numbers t) ! i"
    using assms(2) l by (simp add: held_nth nth_rotate)
qed

lemma distinct_held_slots:
  assumes "tlb_ok t"
  shows "distinct (map fst (held t)) = distinct (take (nat (num_filled t)) (page_numbers t))"
proof (cases "num_filled t = 16")
  case True
  have "length (page_numbers t) = 16" using assms by (simp add: tlb_ok_def)
  then show ?thesis using True by (simp add: held_pages_full[OF assms True])
next
  case False
  then have "num_filled t < 16" using assms by (simp add: tlb_ok_def)
  then show ?thesis by (simp add: held_pages_spare[OF assms])
qed

text \<open>
  C4. At every point of a run no two held entries of the buffer have the same page
  number: the page numbers in the filled slots \<open>0 .. num_filled - 1\<close> are pairwise
  distinct, and so are the page numbers in the order in which \<open>search_TLB\<close> visits them.
  (\<open>update_TLB\<close> itself does not look for the page; \<open>main\<close> calls it, through
  \<open>check_page_table\<close>, only after \<open>search_TLB\<close> has missed.)
\<close>

theorem tlb_pages_distinct:
  "distinct (take (nat (num_filled (TLB (run d as)))) (page_numbers (TLB (run d as)))) \<and>
   distinct (map fst (held (TLB (run d as))))"
proof -
  have "distinct (map fst (held (TLB (run d as))))"
    using consistent_run[of d as] by (simp add: consistent_def tlb_agrees_def)
  then show ?thesis by (simp add: distinct_held_slots[OF tlb_ok_run])
qed

theorem tlb_pages_distinct_witness:
  "num_filled (TLB (run [] [0, 256, 1, 300])) = 2 \<and>
   page_numbers (TLB (run [] [0, 256, 1, 300])) ! 0 = 0 \<and>
   page_numbers (TLB (run [] [0, 256, 1, 300])) ! 1 = 1 \<and>
   distinct (take (nat (num_filled (TLB (run [] [0, 256, 1, 300]))))
               (page_numbers (TLB (run [] [0, 256, 1, 300]))))"
proof -
  have "num_filled (TLB (run [] [0, 256, 1, 300])) = 2"
    "page_numbers (TLB (run [] [0, 256, 1, 300])) ! 0 = 0"
    "page_numbers (TLB (run [] [0, 256, 1, 300])) ! 1 = 1"
    by (simp_all add: eval_simps)
  then show ?thesis using tlb_pages_distinct[of "[]" "[0, 256, 1, 300]"] by simp
qed

section \<open>Allocation of frames\<close>

lemma highest_open_frame_process_address:
  assumes "consistent d s"
  shows "highest_open_frame (local_memory (process_address d s a)) =
           (if get_page_number a \<in> mapped (page_table s) then highest_open_frame (local_memory s)
            else highest_open_frame (local_memory s) + 1)"
proof (cases "search_TLB (TLB s) (get_page_number a) = - 1")
  case False
  then show ?thesis using hit_mapped[OF assms False] by (simp add: process_address_hit)
next
  case miss: True
  show ?thesis
  proof (cases "get_page_number a \<in> mapped (page_table s)")
    case True
    then show ?thesis by (simp add: process_address_table_hit[OF assms miss True])
  next
    case False
    then show ?thesis by (simp add: process_address_fault[OF assms miss False])
  qed
qed

text \<open>
  C6. Frames are handed out in increasing order from 0 and never twice. Before any
  address the next free frame is 0. In every run the next free frame is the number of
  page faults so far and lies in \<open>[0, NUM_FRAMES]\<close>; every frame in the page table is
  below it, and no two pages have the same frame. An address whose page has no entry is
  given exactly the next free frame, which is then at most \<open>NUM_FRAMES - 1\<close>, and the
  next free frame advances by one; an address whose page has an entry leaves the page
  table and the next free frame as they are. No assumption on the stream is needed: the
  page number of every address lies in \<open>[0, 255]\<close>.
\<close>

theorem frames_allocated_in_order:
  "highest_open_frame (local_memory (run d [])) = 0 \<and>
   0 \<le> get_page_number a \<and> get_page_number a \<le> 255 \<and>
   (let s = run d as; s' = process_address d s a; p = get_page_number a;
        f = highest_open_frame (local_memory s)
    in 0 \<le> f \<and> f \<le> NUM_FRAMES \<and> f = num_page_faults s \<and>
       (\<forall>q \<in> mapped (page_table s). 0 \<le> page_table s ! nat q \<and> page_table s ! nat q < f) \<and>
       inj_on (\<lambda>q. page_table s ! nat q) (mapped (page_table s)) \<and>
       (page_table s ! nat p = - 1 \<longrightarrow>
          f \<le> NUM_FRAMES - 1 \<and> resolved_frame d s a = f \<and> page_table s' ! nat p = f \<and>
          highest_open_frame (local_memory s') = f + 1) \<and>
       (page_table s ! nat p \<noteq> - 1 \<longrightarrow>
          page_table s' = page_table s \<and> highest_open_frame (local_memory s') = f))"
proof -
  let ?s = "run d as" and ?p = "get_page_number a"
  let ?s' = "process_address d ?s a"
  let ?f = "highest_open_frame (local_memory ?s)"
  have c: "consistent d ?s" by (rule consistent_run)
  have r: "0 \<le> ?p" "?p < 256" using get_page_number_range[of a] by simp_all
  have z: "highest_open_frame (local_memory (run d [])) = 0" by (simp add: run_def start_eq)
  have b: "0 \<le> ?f \<and> ?f \<le> 256" by (rule highest_open_frame_range[OF c])
  have n: "?f = num_page_faults ?s" using c by (simp add: consistent_def)
  have t: "(\<forall>q \<in> mapped (page_table ?s). 0 \<le> page_table ?s ! nat q \<and> page_table ?s ! nat q < ?f) \<and>
       inj_on (\<lambda>q. page_table ?s ! nat q) (mapped (page_table ?s))"
    using c by (simp add: consistent_def table_ok_def)
  have new: "page_table ?s ! nat ?p = - 1 \<longrightarrow>
          ?f \<le> 256 - 1 \<and> resolved_frame d ?s a = ?f \<and> page_table ?s' ! nat ?p = ?f \<and>
          highest_open_frame (local_memory ?s') = ?f + 1"
  proof
    assume "page_table ?s ! nat ?p = - 1"
    then have un: "?p \<notin> mapped (page_table ?s)" by (simp add: mapped_def)
    have len: "length (page_table ?s) = 256" using c by (simp add: consistent_def table_ok_def)
    show "?f \<le> 256 - 1 \<and> resolved_frame d ?s a = ?f \<and> page_table ?s' ! nat ?p = ?f \<and>
          highest_open_frame (local_memory ?s') = ?f + 1"
      using un fault_frame_free[OF c r un] len r
      by (simp add: resolved_frame_eq[OF c] page_table_process_address[OF c]
          highest_open_frame_process_address[OF c])
  qed
  have old: "page_table ?s ! nat ?p \<noteq> - 1 \<longrightarrow>
          page_table ?s' = page_table ?s \<and> highest_open_frame (local_memory ?s') = ?f"
    using r by (simp add: mapped_def page_table_process_address[OF c]
        highest_open_frame_process_address[OF c])
  show ?thesis
    unfolding Let_def using z r b n t new old by simp
qed

theorem frames_allocated_in_order_witness:
  "page_table (run [] [0, 256]) ! nat (get_page_number 513) = - 1 \<and>
   highest_open_frame (local_memory (run [] [0, 256])) = 2 \<and>
   resolved_frame [] (run [] [0, 256]) 513 = 2 \<and>
   highest_open_frame (local_memory (process_address [] (run [] [0, 256]) 513)) = 3 \<and>
   page_table (run [] [0, 256]) ! nat (get_page_number 300) \<noteq> - 1 \<and>
   highest_open_frame (local_memory (process_address [] (run [] [0, 256]) 300)) = 2"
proof -
  have e: "page_table (run [] [0, 256]) ! nat (get_page_number 513) = - 1"
    "highest_open_frame (local_memory (run [] [0, 256])) = 2"
    "page_table (run [] [0, 256]) ! nat (get_page_number 300) \<noteq> - 1"
    by (simp_all add: eval_simps)
  show ?thesis
    using e frames_allocated_in_order[of "[]" 513 "[0, 256]"]
      frames_allocated_in_order[of "[]" 300 "[0, 256]"]
    by (simp add: Let_def)
qed

section \<open>Counters\<close>

lemma counters_process_address:
  assumes "consistent d s"
  shows "num_addresses_processed (process_address d s a) = num_addresses_processed s + 1"
    and "num_TLB_hits (process_address d s a) =
           num_TLB_hits s + (if search_TLB (TLB s) (get_page_number a) \<noteq> - 1 then 1 else 0)"
    and "num_Pg_faults (process_address d s a) =
           num_Pg_faults s +
             (if search_TLB (TLB s) (get_page_number a) = - 1 \<and>
                 page_table s ! nat (get_page_number a) = - 1 then 1 else 0)"
proof -
  let ?p = "get_page_number a"
  have eq: "num_Pg_faults s = num_page_faults s" using assms by (simp add: consistent_def)
  consider (hit) "search_TLB (TLB s) ?p \<noteq> - 1"
    | (table) "search_TLB (TLB s) ?p = - 1" "?p \<in> mapped (page_table s)"
    | (fault) "search_TLB (TLB s) ?p = - 1" "?p \<notin> mapped (page_table s)"
    by blast
  then have "num_addresses_processed (process_address d s a) = num_addresses_processed s + 1 \<and>
    num_TLB_hits (process_address d s a) =
           num_TLB_hits s + (if search_TLB (TLB s) ?p \<noteq> - 1 then 1 else 0) \<and>
    num_Pg_faults (process_address d s a) =
           num_Pg_faults s +
             (if search_TLB (TLB s) ?p = - 1 \<and> page_table s ! nat ?p = - 1 then 1 else 0)"
  proof cases
    case hit
    then show ?thesis by (simp add: process_address_hit)
  next
    case table
    then show ?thesis
      using eq miss_unmapped_is_fault[of a s]
      by (simp add: process_address_table_hit[OF assms table])
  next
    case fault
    then show ?thesis
      using eq miss_unmapped_is_fault[of a s]
      by (simp add: process_address_fault[OF assms fault])
  qed
  then show "num_addresses_processed (process_address d s a) = num_addresses_processed s + 1"
    and "num_TLB_hits (process_address d s a) =
           num_TLB_hits s + (if search_TLB (TLB s) ?p \<noteq> - 1 then 1 else 0)"
    and "num_Pg_faults (process_address d s a) =
           num_Pg_faults s +
             (if search_TLB (TLB s) ?p = - 1 \<and> page_table s ! nat ?p = - 1 then 1 else 0)"
    by simp_all
qed












section \<open>The printed line\<close>

lemma process_address_printed:
  "printed (process_address d s a) =
     printed s @
       [(a, resolved_frame d s a * 256 + get_offset a,
         sint (memory (local_memory (process_address d s a)) ! nat (resolved_frame d s a)
                 ! nat (get_offset a)))]"
  by (simp add: process_address_def resolved_frame_def lookup_frame_def check_page_table_def
      Let_def split: prod.splits)

lemma get_page_number_alt: "get_page_number a = drop_bit 8 a AND 0xFF"
  unfolding get_page_number_def by (rule bit_eqI) (auto simp: bit_simps)

lemma page_table_process_address_resolved:
  assumes "consistent d s"
  shows "page_table (process_address d s a) ! nat (get_page_number a) = resolved_frame d s a"
proof -
  have "length (page_table s) = 256" using assms by (simp add: consistent_def table_ok_def)
  moreover have "0 \<le> get_page_number a" "get_page_number a < 256"
    using get_page_number_range[of a] by simp_all
  ultimately have "nat (get_page_number a) < length (page_table s)" by simp
  then show ?thesis
    by (simp add: page_table_process_address[OF assms] resolved_frame_eq[OF assms])
qed

text \<open>
  C7. Every address \<open>a\<close> is split as \<open>page_number = (a >> 8) & 0xFF\<close> and
  \<open>offset = a & 0xFF\<close>. In any run the line printed for \<open>a\<close> carries the physical
  address \<open>frame_number * 256 + offset\<close> and the byte (as a signed value) stored at
  position \<open>offset\<close> of frame \<open>frame_number\<close> of the memory, where \<open>frame_number\<close>
  is the frame the lookup returned: the page-table entry of the page, inside
  \<open>[0, NUM_FRAMES)\<close>; the offset lies in \<open>[0, 255]\<close>.
\<close>

theorem translation_reports_frame_and_offset:
  "get_page_number a = drop_bit 8 a AND 0xFF \<and> get_offset a = a AND 0xFF \<and>
   0 \<le> get_offset a \<and> get_offset a < FRAME_SIZE_BYTES \<and>
   (let s = run d as; s' = process_address d s a; frame_number = resolved_frame d s a
    in printed s' =
         printed s @
           [(a, frame_number * FRAME_SIZE_BYTES + get_offset a,
             sint (memory (local_memory s') ! nat frame_number ! nat (get_offset a)))] \<and>
       frame_number = page_table s' ! nat (get_page_number a) \<and>
       0 \<le> frame_number \<and> frame_number < NUM_FRAMES)"
  unfolding Let_def
  using get_offset_range[of a] resolved_frame_range[OF consistent_run, of d as a]
    page_table_process_address_resolved[OF consistent_run, of d as a]
    process_address_printed[of d "run d as" a] get_page_number_alt[of a]
  by (simp add: get_offset_def)

theorem translation_reports_frame_and_offset_witness:
  "get_page_number 263 = 1 \<and> get_offset 263 = 7 \<and>
   resolved_frame (replicate 256 0 @ replicate 256 5)
     (run (replicate 256 0 @ replicate 256 5) [0]) 263 = 1 \<and>
   printed (process_address (replicate 256 0 @ replicate 256 5)
              (run (replicate 256 0 @ replicate 256 5) [0]) 263) =
     [(0, 0, 0), (263, 1 * 256 + 7, 5)]"
proof -
  let ?d = "replicate 256 (0::byte) @ replicate 256 5"
  have e: "get_page_number 263 = 1" "get_offset 263 = 7"
    "resolved_frame ?d (run ?d [0]) 263 = 1"
    "printed (run ?d [0]) = [(0, 0, 0)]"
    "sint (memory (local_memory (process_address ?d (run ?d [0]) 263)) ! nat 1 ! nat 7) = 5"
    by (simp_all add: resolved_frame_def eval_simps nth_append)
  show ?thesis
    using e translation_reports_frame_and_offset[of 263 ?d "[0]"]
    by (simp add: Let_def)
qed

section \<open>Bytes from the disk\<close>

lemma and_255_mod: "(x::int) AND 0xFF = x mod 256"
proof -
  have "(0xFF::int) = mask 8" by (simp add: mask_eq_exp_minus_1)
  then have "x AND 0xFF = take_bit 8 x" by (simp only: take_bit_eq_mask)
  then show ?thesis by (simp add: take_bit_eq_mod)
qed

lemma address_of_page_and_offset:
  assumes "0 \<le> P" "P < 256" "0 \<le> k" "k < 256"
  shows "get_page_number (P * 256 + k) = P" and "get_offset (P * 256 + k) = k"
proof -
  have d: "(P * 256 + k) div 256 = P" using assms(3,4) by simp
  show "get_offset (P * 256 + k) = k"
    using assms(3,4) by (simp add: get_offset_def and_255_mod)
  show "get_page_number (P * 256 + k) = P"
    using assms(1,2) by (simp add: get_page_number_alt and_255_mod drop_bit_eq_div d)
qed

lemma read_page_nth:
  assumes "0 \<le> P" "(P + 1) * 256 \<le> int (length d)" "k < 256"
  shows "read_page d P ! k = d ! (nat P * 256 + k)"
proof -
  have n: "nat (P * 256) = nat P * 256" using assms(1) by (simp add: nat_mult_distrib)
  have "nat ((P + 1) * 256) \<le> length d" using assms(2) by linarith
  then have l: "nat P * 256 + 256 \<le> length d"
    using assms(1) by (simp add: nat_mult_distrib nat_add_distrib)
  then have "length (take 256 (drop (nat P * 256) d)) = 256" by simp
  then have "read_page d P ! k = take 256 (drop (nat P * 256) d) ! k"
    using assms(3) by (simp add: read_page_def Let_def n nth_append)
  then show ?thesis using assms(3) l by simp
qed

lemma frame_holds_page:
  assumes "consistent d s"
  shows "memory (local_memory (process_address d s a)) ! nat (resolved_frame d s a) =
         read_page d (get_page_number a)"
proof -
  let ?s' = "process_address d s a"
  have c: "consistent d ?s'" by (rule consistent_process_address[OF assms])
  have "get_page_number a \<in> mapped (page_table ?s')" by (simp add: mapped_process_address[OF assms])
  then have "memory (local_memory ?s') ! nat (page_table ?s' ! nat (get_page_number a)) =
             read_page d (get_page_number a)"
    using c by (simp add: consistent_def frames_loaded_def)
  then show ?thesis by (simp add: page_table_process_address_resolved[OF assms])
qed

lemma printed_process_address:
  assumes "consistent d s"
  shows "printed (process_address d s a) =
     printed s @
       [(a, resolved_frame d s a * 256 + get_offset a,
         sint (read_page d (get_page_number a) ! nat (get_offset a)))]"
  by (simp add: process_address_printed[of d s a] frame_holds_page[OF assms])

lemma search_after_process_address:
  assumes "consistent d s"
  shows "search_TLB (TLB (process_address d s a)) (get_page_number a) = resolved_frame d s a"
proof (cases "search_TLB (TLB s) (get_page_number a) = - 1")
  case False
  then show ?thesis
    using hit_mapped[OF assms False]
    by (simp add: TLB_process_address[OF assms] resolved_frame_eq[OF assms])
next
  case True
  have ok: "tlb_ok (TLB s)" using assms by (simp add: consistent_def)
  show ?thesis
    using search_TLB_after_update[OF ok miss_not_held[OF assms True]] True
    by (simp add: TLB_process_address[OF assms])
qed

lemma resolved_frame_again:
  assumes "consistent d s"
  shows "resolved_frame d (process_address d s a) a = resolved_frame d s a"
proof -
  have "get_page_number a \<in> mapped (page_table (process_address d s a))"
    by (simp add: mapped_process_address[OF assms])
  then show ?thesis
    by (simp add: resolved_frame_eq[OF consistent_process_address[OF assms]]
        page_table_process_address_resolved[OF assms])
qed

text \<open>
  C8. Let the disk hold page \<open>P\<close> in full, and let \<open>a = P * 256 + k\<close> with \<open>P\<close> and
  \<open>k\<close> in \<open>[0, 255]\<close>. At any point of a run, the line printed for \<open>a\<close> carries the
  byte \<open>k\<close> of page \<open>P\<close> of the disk (as a signed value); if \<open>P\<close> was not referenced
  before, this request is the page fault that loads the page. Asking for \<open>a\<close> again
  right away is a hit of the buffer, causes no fault, and prints the same physical
  address and the same value.
\<close>

theorem backing_store_round_trip:
  "0 \<le> P \<Longrightarrow> P < 256 \<Longrightarrow> 0 \<le> k \<Longrightarrow> k < 256 \<Longrightarrow> (P + 1) * 256 \<le> int (length d) \<Longrightarrow>
   (let a = P * 256 + k; s = run d as; s1 = process_address d s a;
        s2 = process_address d s1 a; line = (a, resolved_frame d s a * 256 + k, sint (d ! nat a))
    in get_page_number a = P \<and> get_offset a = k \<and>
       (P \<notin> get_page_number ` set as \<longrightarrow> num_Pg_faults s1 = num_Pg_faults s + 1) \<and>
       printed s1 = printed s @ [line] \<and>
       search_TLB (TLB s1) P \<noteq> - 1 \<and>
       num_TLB_hits s2 = num_TLB_hits s1 + 1 \<and>
       num_Pg_faults s2 = num_Pg_faults s1 \<and>
       printed s2 = printed s1 @ [line])"
proof -
  assume P: "0 \<le> P" "P < 256" and k: "0 \<le> k" "k < 256" and len: "(P + 1) * 256 \<le> int (length d)"
  let ?a = "P * 256 + k" and ?s = "run d as"
  let ?s1 = "process_address d ?s ?a"
  let ?s2 = "process_address d ?s1 ?a"
  let ?line = "(?a, resolved_frame d ?s ?a * 256 + k, sint (d ! nat ?a))"
  have c: "consistent d ?s" by (rule consistent_run)
  have c1: "consistent d ?s1" by (rule consistent_process_address[OF c])
  have g: "get_page_number ?a = P" "get_offset ?a = k"
    using address_of_page_and_offset[OF P k] by simp_all
  have "nat ?a = nat P * 256 + nat k" using P k by (simp add: nat_add_distrib nat_mult_distrib)
  then have byte: "read_page d P ! nat k = d ! nat ?a"
    using read_page_nth[OF P(1) len, of "nat k"] k by simp
  have first: "P \<notin> get_page_number ` set as \<longrightarrow> num_Pg_faults ?s1 = num_Pg_faults ?s + 1"
    using num_Pg_faults_fault(2)[OF c, of ?a] by (simp add: g mapped_run)
  have p1: "printed ?s1 = printed ?s @ [?line]"
    by (simp add: printed_process_address[OF c] g byte)
  have hit: "search_TLB (TLB ?s1) P = resolved_frame d ?s ?a"
    using search_after_process_address[OF c, of ?a] by (simp add: g)
  then have ne: "search_TLB (TLB ?s1) P \<noteq> - 1"
    using resolved_frame_range[OF c, of ?a] by simp
  have cnt: "num_TLB_hits ?s2 = num_TLB_hits ?s1 + 1" "num_Pg_faults ?s2 = num_Pg_faults ?s1"
    using counters_process_address(2,3)[OF c1, of ?a] ne by (simp_all add: g)
  have p2: "printed ?s2 = printed ?s1 @ [?line]"
    by (simp add: printed_process_address[OF c1] g byte resolved_frame_again[OF c])
  show ?thesis
    unfolding Let_def using g first p1 ne cnt p2 by simp
qed

theorem backing_store_round_trip_witness:
  "(0::int) \<le> 1 \<and> (1::int) < 256 \<and> (0::int) \<le> 7 \<and> (7::int) < 256 \<and>
   (1 + 1) * 256 \<le> int (length (replicate 256 (0::byte) @ replicate 256 5)) \<and>
   printed (process_address (replicate 256 0 @ replicate 256 5)
              (run (replicate 256 0 @ replicate 256 5) [0]) 263) =
     printed (run (replicate 256 0 @ replicate 256 5) [0]) @ [(263, 263, 5)] \<and>
   printed (process_address (replicate 256 0 @ replicate 256 5)
              (process_address (replicate 256 0 @ replicate 256 5)
                 (run (replicate 256 0 @ replicate 256 5) [0]) 263) 263) =
     printed (run (replicate 256 0 @ replicate 256 5) [0]) @ [(263, 263, 5), (263, 263, 5)]"
proof -
  let ?d = "replicate 256 (0::byte) @ replicate 256 5"
  have f: "resolved_frame ?d (run ?d [0]) 263 = 1"
    by (simp add: resolved_frame_def eval_simps)
  have b: "sint (?d ! nat 263) = 5" by (simp add: nth_append)
  show ?thesis
    using backing_store_round_trip[of 1 7 ?d "[0]"] f b
    by (simp add: Let_def)
qed

section \<open>FIFO replacement\<close>

lemma update_TLB_spare:
  assumes "tlb_ok t" "num_filled t < 16"
  shows "update_TLB t p f =
           t\<lparr>page_numbers := (page_numbers t)[nat (num_filled t) := p],
             frame_numbers := (frame_numbers t)[nat (num_filled t) := f],
             num_filled := num_filled t + 1\<rparr>"
    and "nat (num_filled t) < length (page_numbers t)"
    and "nat (num_filled t) < length (frame_numbers t)"
    and "held (update_TLB t p f) = held t @ [(p, f)]"
  using assms held_update_spare[OF assms, of p f]
  by (simp_all add: update_TLB_def tlb_ok_def)

lemma update_TLB_full:
  assumes "tlb_ok t" "num_filled t = 16"
  shows "update_TLB t p f =
           t\<lparr>page_numbers := (page_numbers t)[nat (head_position t) := p],
             frame_numbers := (frame_numbers t)[nat (head_position t) := f],
             head_position := (head_position t + 1) mod 16\<rparr>"
    and "nat (head_position t) < length (page_numbers t)"
    and "nat (head_position t) < length (frame_numbers t)"
    and "held t \<noteq> []"
    and "hd (held t) = (page_numbers t ! nat (head_position t), frame_numbers t ! nat (head_position t))"
    and "held (update_TLB t p f) = tl (held t) @ [(p, f)]"
proof -
  have h: "0 \<le> head_position t" "head_position t < 16" using assms(1) by (simp_all add: tlb_ok_def)
  then have hn: "nat (head_position t) < 16" by simp
  show "update_TLB t p f =
           t\<lparr>page_numbers := (page_numbers t)[nat (head_position t) := p],
             frame_numbers := (frame_numbers t)[nat (head_position t) := f],
             head_position := (head_position t + 1) mod 16\<rparr>"
    using assms(2) h by (simp add: update_TLB_def c_rem_nonneg)
  show "nat (head_position t) < length (page_numbers t)"
    "nat (head_position t) < length (frame_numbers t)"
    using assms(1) hn by (simp_all add: tlb_ok_def)
  show ne: "held t \<noteq> []"
  proof
    assume "held t = []"
    then have "length (held t) = 0" by (simp only: list.size)
    then show False using assms(2) by simp
  qed
  have "hd (held t) = held t ! 0" using ne by (simp add: hd_conv_nth)
  then show "hd (held t) = (page_numbers t ! nat (head_position t), frame_numbers t ! nat (head_position t))"
    using assms(2) hn by (simp add: held_nth)
  show "held (update_TLB t p f) = tl (held t) @ [(p, f)]"
    by (rule held_update_full[OF assms])
qed

lemma search_TLB_none:
  assumes "0 \<le> head_position t" "p \<notin> fst ` set (held t)"
  shows "search_TLB t p = - 1"
proof -
  have "find (\<lambda>e. fst e = p) (held t) = None"
    using assms(2) by (force simp: find_None_iff)
  then show ?thesis using assms(1) by (simp add: search_TLB_find)
qed

lemma evicted_page:
  assumes "consistent d s" "num_filled (TLB s) = 16" "search_TLB (TLB s) (get_page_number a) = - 1"
  shows "held (TLB (process_address d s a)) =
           tl (held (TLB s)) @ [(get_page_number a, resolved_frame d s a)]"
    and "search_TLB (TLB (process_address d s a)) (fst (hd (held (TLB s)))) = - 1"
    and "page_table (process_address d s a) ! nat (fst (hd (held (TLB s)))) \<noteq> - 1"
proof -
  let ?q = "held (TLB s)" and ?p = "get_page_number a" and ?s' = "process_address d s a"
  let ?ev = "fst (hd ?q)"
  have ok: "tlb_ok (TLB s)" and ag: "tlb_agrees s" using assms(1) by (simp_all add: consistent_def)
  have t': "TLB ?s' = update_TLB (TLB s) ?p (resolved_frame d s a)"
    using assms(3) by (simp add: TLB_process_address[OF assms(1)])
  show q': "held (TLB ?s') = tl ?q @ [(?p, resolved_frame d s a)]"
    by (simp add: t' update_TLB_full(6)[OF ok assms(2)])
  have ne: "?q \<noteq> []" by (rule update_TLB_full(4)[OF ok assms(2)])
  then have q: "?q = hd ?q # tl ?q" by simp
  have "distinct (map fst ?q)" using ag by (simp add: tlb_agrees_def)
  then have "distinct (map fst (hd ?q # tl ?q))" using q by simp
  then have a1: "?ev \<notin> fst ` set (tl ?q)" by simp
  have inq: "hd ?q \<in> set ?q" using ne by simp
  then have "?ev \<in> fst ` set ?q" by blast
  then have a2: "?ev \<noteq> ?p" using miss_not_held[OF assms(1,3)] by metis
  have "?ev \<notin> fst ` set (held (TLB ?s'))" using a1 a2 by (simp add: q')
  moreover have "0 \<le> head_position (TLB ?s')"
    using consistent_process_address[OF assms(1), of a] by (simp add: consistent_def tlb_ok_def)
  ultimately show "search_TLB (TLB ?s') ?ev = - 1" by (rule search_TLB_none[rotated])
  have "?ev \<in> mapped (page_table s)" using ag inq by (simp add: tlb_agrees_def)
  then have "?ev \<in> mapped (page_table ?s')" by (simp add: mapped_process_address[OF assms(1)])
  then show "page_table ?s' ! nat ?ev \<noteq> - 1" by (simp add: mapped_def)
qed

lemma table_hit_counters:
  assumes "consistent d s" "search_TLB (TLB s) (get_page_number b) = - 1"
    "page_table s ! nat (get_page_number b) \<noteq> - 1"
  shows "num_Pg_faults (process_address d s b) = num_Pg_faults s"
    and "num_TLB_hits (process_address d s b) = num_TLB_hits s"
  using counters_process_address(2,3)[OF assms(1), of b] assms(2,3) by simp_all

lemma held_run_distinct:
  "distinct (map get_page_number as) \<Longrightarrow>
   held (TLB (run d as)) =
     drop (length as - 16) (zip (map get_page_number as) (map int [0..<length as]))"
proof (induction as rule: rev_induct)
  case Nil
  then show ?case by (simp add: run_def)
next
  case (snoc a as)
  let ?s = "run d as" and ?p = "get_page_number a" and ?L = "length as"
  let ?Z = "zip (map get_page_number as) (map int [0..<?L])"
  have c: "consistent d ?s" by (rule consistent_run)
  have ok: "tlb_ok (TLB ?s)" by (rule tlb_ok_run)
  have d: "distinct (map get_page_number as)" and fresh: "?p \<notin> get_page_number ` set as"
    using snoc.prems by simp_all
  have IH: "held (TLB ?s) = drop (?L - 16) ?Z" by (rule snoc.IH[OF d])
  have un: "?p \<notin> mapped (page_table ?s)" using fresh by (simp add: mapped_run)
  have miss: "search_TLB (TLB ?s) ?p = - 1" by (rule num_Pg_faults_fault(1)[OF c un])
  have "card (get_page_number ` set as) = ?L"
    using d by (simp add: distinct_card flip: set_map)
  then have f: "resolved_frame d ?s a = int ?L"
    using un c by (simp add: resolved_frame_eq[OF c] consistent_def table_ok_def mapped_run flip: of_nat_eq_iff)
  have lz: "length ?Z = ?L" by simp
  have "length (held (TLB ?s)) = ?L - (?L - 16)" by (simp only: IH length_drop lz)
  then have n: "nat (num_filled (TLB ?s)) = min 16 ?L" by (simp only: length_held)
  have n0: "0 \<le> num_filled (TLB ?s)" using ok by (simp add: tlb_ok_def)
  have z': "zip (map get_page_number (as @ [a])) (map int [0..<Suc ?L]) = ?Z @ [(?p, int ?L)]"
    by simp
  have "held (TLB (run d (as @ [a]))) =
          (if num_filled (TLB ?s) = 16 then tl (held (TLB ?s)) else held (TLB ?s)) @ [(?p, int ?L)]"
    using miss by (simp add: run_snoc TLB_process_address[OF c] held_update[OF ok] f)
  also have "\<dots> = drop (Suc ?L - 16) (?Z @ [(?p, int ?L)])"
  proof (cases "num_filled (TLB ?s) = 16")
    case True
    then have L: "16 \<le> ?L" using n by simp
    have "tl (drop (?L - 16) ?Z) = drop (Suc (?L - 16)) ?Z"
      by (simp only: drop_Suc tl_drop)
    moreover have k: "Suc (?L - 16) = Suc ?L - 16" using L by simp
    moreover have "drop (Suc ?L - 16) (?Z @ [(?p, int ?L)]) = drop (Suc ?L - 16) ?Z @ [(?p, int ?L)]"
      using L by simp
    ultimately show ?thesis using True by (simp only: IH simp_thms if_True)
  next
    case False
    then have "nat (num_filled (TLB ?s)) \<noteq> 16" using n0 by linarith
    moreover have "nat (num_filled (TLB ?s)) \<le> 16" using n by simp
    ultimately have "?L < 16" using n by linarith
    then show ?thesis using False by (simp add: IH)
  qed
  finally show ?case by (simp only: z' length_append_singleton)
qed


lemma first_of_seventeen:
  assumes "distinct (map get_page_number cs)" "length cs = 17"
  shows "search_TLB (TLB (run d cs)) (get_page_number (hd cs)) = - 1"
    and "page_table (run d cs) ! nat (get_page_number (hd cs)) \<noteq> - 1"
proof -
  let ?p = "get_page_number (hd cs)"
  let ?Z = "zip (map get_page_number cs) (map int [0..<length cs])"
  have ne: "cs \<noteq> []" using assms(2) by auto
  then have cs: "cs = hd cs # tl cs" by simp
  have "distinct (map get_page_number (hd cs # tl cs))" using assms(1) cs by simp
  then have fresh: "?p \<notin> set (map get_page_number (tl cs))" by simp
  have h: "held (TLB (run d cs)) = drop 1 ?Z"
    using held_run_distinct[OF assms(1), of d] assms(2) by simp
  have "drop 1 ?Z = zip (map get_page_number (tl cs)) (drop 1 (map int [0..<length cs]))"
    by (simp add: drop_zip drop_Suc map_tl)
  then have "fst ` set (held (TLB (run d cs))) \<subseteq> set (map get_page_number (tl cs))"
    unfolding h by (auto dest: set_zip_leftD)
  then have "?p \<notin> fst ` set (held (TLB (run d cs)))" using fresh by blast
  moreover have "0 \<le> head_position (TLB (run d cs))"
    using tlb_ok_run[of d cs] by (simp add: tlb_ok_def)
  ultimately show "search_TLB (TLB (run d cs)) ?p = - 1" by (rule search_TLB_none[rotated])
  have "?p \<in> mapped (page_table (run d cs))" using ne by (simp add: mapped_run)
  then show "page_table (run d cs) ! nat ?p \<noteq> - 1" by (simp add: mapped_def)
qed

lemma drop_last_sixteen:
  assumes "length q = 16"
  shows "drop (length ((tl q @ [x]) @ ys) - 16) ((tl q @ [x]) @ ys) =
         drop (length (q @ x # ys) - 16) (q @ x # ys)"
proof -
  have ne: "q \<noteq> []" using assms by auto
  then have q: "q = hd q # tl q" by simp
  have lt: "length (tl q) = 15" using assms by simp
  have "drop (length (q @ x # ys) - 16) (q @ x # ys) =
        drop (Suc (length ys)) (hd q # (tl q @ x # ys))"
    using assms q by (metis Cons_eq_appendI add_diff_cancel_left' length_Cons length_append)
  also have "\<dots> = drop (length ys) (tl q @ x # ys)" by simp
  also have "\<dots> = drop (length ((tl q @ [x]) @ ys) - 16) ((tl q @ [x]) @ ys)"
    using lt by simp
  finally show ?thesis by simp
qed

lemma held_run_from_insertions:
  "consistent d s \<Longrightarrow>
   held (TLB (run_from d s as)) =
     drop (length (held (TLB s) @ insertions d s as) - 16) (held (TLB s) @ insertions d s as)"
proof (induction as arbitrary: s)
  case Nil
  have "length (held (TLB s)) \<le> 16" using Nil by (auto simp: consistent_def tlb_ok_def)
  then show ?case by simp
next
  case (Cons a as)
  let ?s' = "process_address d s a" and ?p = "get_page_number a"
  let ?q = "held (TLB s)"
  have ok: "tlb_ok (TLB s)" using Cons.prems by (simp add: consistent_def)
  note IH = Cons.IH[OF consistent_process_address[OF Cons.prems], of a]
  show ?case
  proof (cases "search_TLB (TLB s) ?p = - 1")
    case False
    then show ?thesis using IH by (simp add: TLB_process_address[OF Cons.prems])
  next
    case True
    let ?x = "(?p, resolved_frame d s a)"
    have h': "held (TLB ?s') = (if num_filled (TLB s) = 16 then tl ?q else ?q) @ [?x]"
      using True by (simp add: TLB_process_address[OF Cons.prems] held_update[OF ok])
    show ?thesis
    proof (cases "num_filled (TLB s) = 16")
      case full: True
      then have l: "length ?q = 16" by simp
      let ?I = "insertions d ?s' as"
      have h'': "held (TLB ?s') = tl ?q @ [?x]" using h' full by simp
      have ins: "insertions d s (a # as) = ?x # ?I" using True by simp
      have "held (TLB (run_from d s (a # as))) =
              drop (length ((tl ?q @ [?x]) @ ?I) - 16) ((tl ?q @ [?x]) @ ?I)"
        using IH by (simp only: run_from.simps h'')
      also have "\<dots> = drop (length (?q @ ?x # ?I) - 16) (?q @ ?x # ?I)"
        by (rule drop_last_sixteen[OF l])
      finally show ?thesis by (simp only: ins)
    next
      case False
      then show ?thesis using IH True by (simp add: h')
    qed
  qed
qed

lemma held_run_insertions:
  "held (TLB (run d as)) =
     drop (length (insertions d start as) - 16) (insertions d start as)"
  using held_run_from_insertions[OF consistent_start, of d as] by (simp add: run_def)

text \<open>
  C3. In every run the buffer holds at most 16 entries. With the buffer as it is at any
  point of a run, \<open>update_TLB\<close> for any pair \<open>(p, f)\<close>
  \<^item> writes the pair into slot \<open>num_filled\<close> and adds one to \<open>num_filled\<close> when fewer
    than 16 entries are held, so that the pair becomes the newest held entry;
  \<^item> overwrites the slot at \<open>head_position\<close> and advances the head by one modulo 16
    when 16 entries are held; that slot is the first entry in the order of insertion,
    so the oldest entry leaves and the pair becomes the newest.
  When the buffer is full and the probe for the page of the next address misses, the
  page that leaves is the oldest held one; a probe for it then misses, the page table
  still has its entry, and an address on that page is then neither a hit nor a fault.
  For a stream of addresses on pairwise distinct pages the buffer holds the last 16 of
  them, in order, each with the frame of its position in the stream; after 17 such
  addresses the page of the first one is gone from the buffer but not from the page
  table, and a reference to it is a miss of the buffer without a page fault.
  One pass of the loop leaves the buffer exactly as it is when the probe finds the page,
  and calls \<open>update_TLB\<close> once, for the page of the address, when the probe misses. So
  in every run the held entries are the last 16 pairs inserted (all of them while fewer
  than 17 were inserted), in the order of insertion: the entry at the head is the one
  inserted earliest among those held, whatever hits happened in between.
\<close>

theorem tlb_fifo_replacement:
  "(let t = TLB (run d as)
    in num_filled t \<le> NUM_TLB_ENTRIES \<and> length (held t) \<le> 16 \<and>
       (num_filled t < NUM_TLB_ENTRIES \<longrightarrow>
          update_TLB t p f =
            t\<lparr>page_numbers := (page_numbers t)[nat (num_filled t) := p],
              frame_numbers := (frame_numbers t)[nat (num_filled t) := f],
              num_filled := num_filled t + 1\<rparr> \<and>
          nat (num_filled t) < length (page_numbers t) \<and>
          held (update_TLB t p f) = held t @ [(p, f)]) \<and>
       (num_filled t = NUM_TLB_ENTRIES \<longrightarrow>
          update_TLB t p f =
            t\<lparr>page_numbers := (page_numbers t)[nat (head_position t) := p],
              frame_numbers := (frame_numbers t)[nat (head_position t) := f],
              head_position := (head_position t + 1) mod NUM_TLB_ENTRIES\<rparr> \<and>
          nat (head_position t) < length (page_numbers t) \<and>
          hd (held t) =
            (page_numbers t ! nat (head_position t), frame_numbers t ! nat (head_position t)) \<and>
          held (update_TLB t p f) = tl (held t) @ [(p, f)])) \<and>
   (let s = run d as; s' = process_address d s a; evicted = fst (hd (held (TLB s)))
    in num_filled (TLB s) = NUM_TLB_ENTRIES \<and> search_TLB (TLB s) (get_page_number a) = - 1 \<longrightarrow>
         held (TLB s') = tl (held (TLB s)) @ [(get_page_number a, resolved_frame d s a)] \<and>
         search_TLB (TLB s') evicted = - 1 \<and>
         page_table s' ! nat evicted \<noteq> - 1 \<and>
         (get_page_number b = evicted \<longrightarrow>
            num_TLB_hits (process_address d s' b) = num_TLB_hits s' \<and>
            num_Pg_faults (process_address d s' b) = num_Pg_faults s')) \<and>
   (distinct (map get_page_number cs) \<longrightarrow>
      held (TLB (run d cs)) =
        drop (length cs - 16) (zip (map get_page_number cs) (map int [0..<length cs])) \<and>
      (length cs = 17 \<longrightarrow>
         search_TLB (TLB (run d cs)) (get_page_number (hd cs)) = - 1 \<and>
         page_table (run d cs) ! nat (get_page_number (hd cs)) \<noteq> - 1 \<and>
         (get_page_number b = get_page_number (hd cs) \<longrightarrow>
            num_TLB_hits (process_address d (run d cs) b) = num_TLB_hits (run d cs) \<and>
            num_Pg_faults (process_address d (run d cs) b) = num_Pg_faults (run d cs)))) \<and>
   (let s = run d as; s' = process_address d s a
    in (search_TLB (TLB s) (get_page_number a) \<noteq> - 1 \<longrightarrow> TLB s' = TLB s) \<and>
       (search_TLB (TLB s) (get_page_number a) = - 1 \<longrightarrow>
          TLB s' = update_TLB (TLB s) (get_page_number a) (resolved_frame d s a))) \<and>
   held (TLB (run d as)) =
     drop (length (insertions d start as) - 16) (insertions d start as)"
proof -
  let ?s = "run d as"
  let ?t = "TLB ?s"
  let ?s' = "process_address d ?s a"
  have ok: "tlb_ok ?t" by (rule tlb_ok_run)
  have c: "consistent d ?s" by (rule consistent_run)
  have c': "consistent d ?s'" by (rule consistent_process_address[OF c])
  have cap: "num_filled ?t \<le> 16 \<and> length (held ?t) \<le> 16"
    using ok by (auto simp: tlb_ok_def)
  have spare: "num_filled ?t < 16 \<longrightarrow>
          update_TLB ?t p f =
            ?t\<lparr>page_numbers := (page_numbers ?t)[nat (num_filled ?t) := p],
              frame_numbers := (frame_numbers ?t)[nat (num_filled ?t) := f],
              num_filled := num_filled ?t + 1\<rparr> \<and>
          nat (num_filled ?t) < length (page_numbers ?t) \<and>
          held (update_TLB ?t p f) = held ?t @ [(p, f)]"
    using update_TLB_spare(1,4)[OF ok, of p f] update_TLB_spare(2)[OF ok] by blast
  have full: "num_filled ?t = 16 \<longrightarrow>
          update_TLB ?t p f =
            ?t\<lparr>page_numbers := (page_numbers ?t)[nat (head_position ?t) := p],
              frame_numbers := (frame_numbers ?t)[nat (head_position ?t) := f],
              head_position := (head_position ?t + 1) mod 16\<rparr> \<and>
          nat (head_position ?t) < length (page_numbers ?t) \<and>
          hd (held ?t) =
            (page_numbers ?t ! nat (head_position ?t), frame_numbers ?t ! nat (head_position ?t)) \<and>
          held (update_TLB ?t p f) = tl (held ?t) @ [(p, f)]"
    using update_TLB_full(1,6)[OF ok, of p f] update_TLB_full(2,5)[OF ok] by blast
  have ev: "num_filled ?t = 16 \<and> search_TLB ?t (get_page_number a) = - 1 \<longrightarrow>
         held (TLB ?s') = tl (held ?t) @ [(get_page_number a, resolved_frame d ?s a)] \<and>
         search_TLB (TLB ?s') (fst (hd (held ?t))) = - 1 \<and>
         page_table ?s' ! nat (fst (hd (held ?t))) \<noteq> - 1 \<and>
         (get_page_number b = fst (hd (held ?t)) \<longrightarrow>
            num_TLB_hits (process_address d ?s' b) = num_TLB_hits ?s' \<and>
            num_Pg_faults (process_address d ?s' b) = num_Pg_faults ?s')"
  proof
    assume h: "num_filled ?t = 16 \<and> search_TLB ?t (get_page_number a) = - 1"
    note e = evicted_page[OF c conjunct1[OF h] conjunct2[OF h]]
    have "get_page_number b = fst (hd (held ?t)) \<longrightarrow>
            num_TLB_hits (process_address d ?s' b) = num_TLB_hits ?s' \<and>
            num_Pg_faults (process_address d ?s' b) = num_Pg_faults ?s'"
      using table_hit_counters[OF c', of b] e(2,3) by simp
    then show "held (TLB ?s') = tl (held ?t) @ [(get_page_number a, resolved_frame d ?s a)] \<and>
         search_TLB (TLB ?s') (fst (hd (held ?t))) = - 1 \<and>
         page_table ?s' ! nat (fst (hd (held ?t))) \<noteq> - 1 \<and>
         (get_page_number b = fst (hd (held ?t)) \<longrightarrow>
            num_TLB_hits (process_address d ?s' b) = num_TLB_hits ?s' \<and>
            num_Pg_faults (process_address d ?s' b) = num_Pg_faults ?s')"
      using e by simp
  qed
  have sc: "distinct (map get_page_number cs) \<longrightarrow>
      held (TLB (run d cs)) =
        drop (length cs - 16) (zip (map get_page_number cs) (map int [0..<length cs])) \<and>
      (length cs = 17 \<longrightarrow>
         search_TLB (TLB (run d cs)) (get_page_number (hd cs)) = - 1 \<and>
         page_table (run d cs) ! nat (get_page_number (hd cs)) \<noteq> - 1 \<and>
         (get_page_number b = get_page_number (hd cs) \<longrightarrow>
            num_TLB_hits (process_address d (run d cs) b) = num_TLB_hits (run d cs) \<and>
            num_Pg_faults (process_address d (run d cs) b) = num_Pg_faults (run d cs)))"
  proof
    assume dc: "distinct (map get_page_number cs)"
    have "length cs = 17 \<longrightarrow>
         search_TLB (TLB (run d cs)) (get_page_number (hd cs)) = - 1 \<and>
         page_table (run d cs) ! nat (get_page_number (hd cs)) \<noteq> - 1 \<and>
         (get_page_number b = get_page_number (hd cs) \<longrightarrow>
            num_TLB_hits (process_address d (run d cs) b) = num_TLB_hits (run d cs) \<and>
            num_Pg_faults (process_address d (run d cs) b) = num_Pg_faults (run d cs))"
    proof
      assume l: "length cs = 17"
      note fs = first_of_seventeen[OF dc l, of d]
      show "search_TLB (TLB (run d cs)) (get_page_number (hd cs)) = - 1 \<and>
         page_table (run d cs) ! nat (get_page_number (hd cs)) \<noteq> - 1 \<and>
         (get_page_number b = get_page_number (hd cs) \<longrightarrow>
            num_TLB_hits (process_address d (run d cs) b) = num_TLB_hits (run d cs) \<and>
            num_Pg_faults (process_address d (run d cs) b) = num_Pg_faults (run d cs))"
        using fs table_hit_counters[OF consistent_run, of d cs b] by simp
    qed
    then show "held (TLB (run d cs)) =
        drop (length cs - 16) (zip (map get_page_number cs) (map int [0..<length cs])) \<and>
      (length cs = 17 \<longrightarrow>
         search_TLB (TLB (run d cs)) (get_page_number (hd cs)) = - 1 \<and>
         page_table (run d cs) ! nat (get_page_number (hd cs)) \<noteq> - 1 \<and>
         (get_page_number b = get_page_number (hd cs) \<longrightarrow>
            num_TLB_hits (process_address d (run d cs) b) = num_TLB_hits (run d cs) \<and>
            num_Pg_faults (process_address d (run d cs) b) = num_Pg_faults (run d cs)))"
      using held_run_distinct[OF dc, of d] by simp
  qed
  have step: "(search_TLB ?t (get_page_number a) \<noteq> - 1 \<longrightarrow> TLB ?s' = ?t) \<and>
       (search_TLB ?t (get_page_number a) = - 1 \<longrightarrow>
          TLB ?s' = update_TLB ?t (get_page_number a) (resolved_frame d ?s a))"
    by (simp add: TLB_process_address[OF c])
  have ord: "held ?t = drop (length (insertions d start as) - 16) (insertions d start as)"
    by (rule held_run_insertions)
  show ?thesis
    unfolding Let_def using cap spare full ev sc step ord by blast
qed



theorem tlb_fifo_replacement_witness:
  "num_filled (TLB (run [] [0, 256])) < NUM_TLB_ENTRIES \<and>
   held (update_TLB (TLB (run [] [0, 256])) 9 5) = held (TLB (run [] [0, 256])) @ [(9, 5)] \<and>
   num_filled (TLB (run []
     [0, 256, 512, 768, 1024, 1280, 1536, 1792, 2048, 2304, 2560, 2816, 3072, 3328, 3584, 3840,
      0])) = NUM_TLB_ENTRIES \<and>
   search_TLB (TLB (run []
     [0, 256, 512, 768, 1024, 1280, 1536, 1792, 2048, 2304, 2560, 2816, 3072, 3328, 3584, 3840,
      0])) (get_page_number 4096) = - 1 \<and>
   fst (hd (held (TLB (run []
     [0, 256, 512, 768, 1024, 1280, 1536, 1792, 2048, 2304, 2560, 2816, 3072, 3328, 3584, 3840,
      0])))) = 0 \<and>
   search_TLB (TLB (process_address [] (run []
     [0, 256, 512, 768, 1024, 1280, 1536, 1792, 2048, 2304, 2560, 2816, 3072, 3328, 3584, 3840,
      0]) 4096)) 0 = - 1 \<and>
   page_table (process_address [] (run []
     [0, 256, 512, 768, 1024, 1280, 1536, 1792, 2048, 2304, 2560, 2816, 3072, 3328, 3584, 3840,
      0]) 4096) ! nat 0 \<noteq> - 1 \<and>
   distinct (map get_page_number
     [0, 256, 512, 768, 1024, 1280, 1536, 1792, 2048, 2304, 2560, 2816, 3072, 3328, 3584, 3840,
      4096]) \<and>
   length [0, 256, 512, 768, 1024, 1280, 1536, 1792, 2048, 2304, 2560, 2816, 3072, 3328, 3584,
      3840, 4096 :: int] = 17 \<and>
   get_page_number 77 = get_page_number (hd
     [0, 256, 512, 768, 1024, 1280, 1536, 1792, 2048, 2304, 2560, 2816, 3072, 3328, 3584, 3840,
      4096]) \<and>
   search_TLB (TLB (run []
     [0, 256, 512, 768, 1024, 1280, 1536, 1792, 2048, 2304, 2560, 2816, 3072, 3328, 3584, 3840,
      4096])) 0 = - 1 \<and>
   num_Pg_faults (process_address [] (run []
     [0, 256, 512, 768, 1024, 1280, 1536, 1792, 2048, 2304, 2560, 2816, 3072, 3328, 3584, 3840,
      4096]) 77) =
   num_Pg_faults (run []
     [0, 256, 512, 768, 1024, 1280, 1536, 1792, 2048, 2304, 2560, 2816, 3072, 3328, 3584, 3840,
      4096])"
proof -
  let ?cs = "[0, 256, 512, 768, 1024, 1280, 1536, 1792, 2048, 2304, 2560, 2816, 3072, 3328, 3584,
      3840, 4096 :: int]"
  let ?hs = "[0, 256, 512, 768, 1024, 1280, 1536, 1792, 2048, 2304, 2560, 2816, 3072, 3328, 3584,
      3840, 0 :: int]"
  note t = tlb_fifo_replacement[of "[]" "[0, 256]" 9 5 0 77 ?cs, unfolded Let_def]
  note u = tlb_fifo_replacement[of "[]" ?hs 9 5 4096 77 ?cs, unfolded Let_def]
  have n: "num_filled (TLB (run [] [0, 256])) < 16"
    by (simp add: eval_simps)
  have fl: "num_filled (TLB (run [] ?hs)) = 16"
    and ms: "search_TLB (TLB (run [] ?hs)) (get_page_number 4096) = - 1"
    and hp: "page_numbers (TLB (run [] ?hs)) ! nat (head_position (TLB (run [] ?hs))) = 0"
    by (simp_all add: eval_simps)
  have dc: "distinct (map get_page_number ?cs)"
    by (simp add: get_page_number_def)
  have l: "length ?cs = 17" by simp
  have g: "get_page_number 77 = get_page_number (hd ?cs)"
    by (simp add: get_page_number_def)
  have z: "get_page_number (hd ?cs) = 0"
    by (simp add: get_page_number_def)
  note spare = t[THEN conjunct1, THEN conjunct2, THEN conjunct2, THEN conjunct1, THEN mp, OF n]
  note full = u[THEN conjunct1, THEN conjunct2, THEN conjunct2, THEN conjunct2, THEN mp, OF fl]
  note evict = u[THEN conjunct2, THEN conjunct1, THEN mp, OF conjI[OF fl ms]]
  note seventeen = t[THEN conjunct2, THEN conjunct2, THEN conjunct1, THEN mp, OF dc,
      THEN conjunct2, THEN mp, OF l]
  note after = seventeen[THEN conjunct2, THEN conjunct2, THEN mp, OF g]
  have ev: "fst (hd (held (TLB (run [] ?hs)))) = 0"
    using full[THEN conjunct2, THEN conjunct2, THEN conjunct1] by (simp only: hp fst_conv)
  have e1: "search_TLB (TLB (process_address [] (run [] ?hs) 4096)) 0 = - 1"
    using evict[THEN conjunct2, THEN conjunct1] by (simp only: ev)
  have e2: "page_table (process_address [] (run [] ?hs) 4096) ! nat 0 \<noteq> - 1"
    using evict[THEN conjunct2, THEN conjunct2, THEN conjunct1] by (simp only: ev simp_thms)
  have s0: "search_TLB (TLB (run [] ?cs)) 0 = - 1"
    using seventeen[THEN conjunct1] by (simp only: z)
  show ?thesis
    using n spare[THEN conjunct2, THEN conjunct2] fl ms ev e1 e2 dc l g s0 after[THEN conjunct2]
    by blast
qed

end
